theory Spec2Isabelle
  imports Complex_Main "HOL-Library.AList"
begin

section \<open>Errors raised by the Python code\<close>

text \<open>
  Every exception the modelled functions can raise is a value of this type; a function
  that can raise returns \<open>error + 'a\<close> with \<open>Inl\<close> for the exception.
\<close>

datatype error =
    ValueError
  | ZeroDivisionError
  | IndexError
  | TypeError
  | AttributeError
  | ShapeMismatch

section \<open>evaluate\_heads (syntax/network.py)\<close>

text \<open>
  Python's \<open>xs[1:-1]\<close>: the elements at the positions \<open>1 .. len(xs) - 2\<close>, for a list of
  any length.
\<close>

definition slice_1_m1 :: "'a list \<Rightarrow> 'a list" where
  "slice_1_m1 xs = drop 1 (take (length xs - 1) xs)"

text \<open>
  The inner loop \<open>for x, y in zip(corr_sent, pred_sent)\<close>: \<open>corr += int(x == y)\<close> and
  \<open>has_nonequal |= (x != y)\<close>.
\<close>

fun count_equal :: "(int \<times> int) list \<Rightarrow> nat \<times> bool \<Rightarrow> nat \<times> bool" where
  "count_equal [] (corr, has_nonequal) = (corr, has_nonequal)"
| "count_equal ((x, y) # xys) (corr, has_nonequal) =
     count_equal xys (corr + (if x = y then 1 else 0), has_nonequal \<or> x \<noteq> y)"

text \<open>
  The outer loop \<open>for corr_sent, pred_sent in zip(corr_heads, pred_heads)\<close> over the state
  \<open>(corr, total, corr_sents)\<close> (\<open>total\<close> is written \<open>tot\<close>); the \<open>raise ValueError\<close> ends it.
\<close>

fun eval_loop :: "(int list \<times> int list) list \<Rightarrow> nat \<times> nat \<times> nat \<Rightarrow> error + nat \<times> nat \<times> nat" where
  "eval_loop [] acc = Inr acc"
| "eval_loop ((corr_sent, pred_sent) # rest) (corr, tot, corr_sents) =
     (let corr_sent = (if length corr_sent = length pred_sent + 2
                       then slice_1_m1 corr_sent else corr_sent)
      in if length corr_sent \<noteq> length pred_sent then Inl ValueError
         else (case count_equal (zip corr_sent pred_sent) (corr, False) of
                 (corr, has_nonequal) \<Rightarrow>
                   eval_loop rest (corr, tot + length corr_sent,
                                   corr_sents + (1 - (if has_nonequal then 1 else 0)))))"

text \<open>
  The result tuple \<open>(corr, total, corr / total, corr_sents, len(corr_heads),
  corr_sents / len(corr_heads))\<close>. Python's true division of two integers is modelled by
  the exact quotient in \<open>rat\<close> (the float it returns is that quotient rounded); a zero
  divisor raises.
\<close>

type_synonym head_scores = "nat \<times> nat \<times> rat \<times> nat \<times> nat \<times> rat"

definition evaluate_heads :: "int list list \<Rightarrow> int list list \<Rightarrow> error + head_scores" where
  "evaluate_heads corr_heads pred_heads =
     (case eval_loop (zip corr_heads pred_heads) (0, 0, 0) of
        Inl e \<Rightarrow> Inl e
      | Inr (corr, tot, corr_sents) \<Rightarrow>
          if tot = 0 then Inl ZeroDivisionError
          else if length corr_heads = 0 then Inl ZeroDivisionError
          else Inr (corr, tot, of_nat corr / of_nat tot, corr_sents, length corr_heads,
                    of_nat corr_sents / of_nat (length corr_heads)))"

section \<open>descr\_to\_feats and is\_subsumed (neural\_LM/UD\_preparation/read\_tags.py)\<close>

text \<open>
  Python's \<open>s.split(sep)\<close> for a separator of one character: the pieces between the
  occurrences of \<open>sep\<close>, never an empty list (\<open>"".split(",")\<close> is \<open>[""]\<close>).
\<close>

fun split_acc :: "char \<Rightarrow> string \<Rightarrow> string \<Rightarrow> string list" where
  "split_acc sep piece [] = [piece]"
| "split_acc sep piece (c # cs) =
     (if c = sep then piece # split_acc sep [] cs else split_acc sep (piece @ [c]) cs)"

definition split_on :: "char \<Rightarrow> string \<Rightarrow> string list" where
  "split_on sep s = split_acc sep [] s"

text \<open>
  \<open>s.split(sep, maxsplit=1)\<close>: one piece when \<open>sep\<close> does not occur, otherwise the text
  before the first \<open>sep\<close> and the text after it.
\<close>

definition split_first :: "char \<Rightarrow> string \<Rightarrow> string list" where
  "split_first sep s =
     (if sep \<in> set s
      then [takeWhile (\<lambda>c. c \<noteq> sep) s, tl (dropWhile (\<lambda>c. c \<noteq> sep) s)]
      else [s])"

text \<open>
  \<open>dict(fields)\<close>: a later pair with the same key replaces the value and keeps the place of
  the first one. A dictionary is an association list with distinct keys, in insertion order.
\<close>

definition py_dict :: "(string \<times> string) list \<Rightarrow> (string \<times> string) list" where
  "py_dict fields = foldl (\<lambda>d (k, v). AList.update k v d) [] fields"

text \<open>
  The loop \<open>for elem in feats.split("|")\<close> of \<open>descr_to_feats\<close>. The unpacking
  \<open>key, values = elem.split("=", maxsplit=1)\<close> raises \<open>ValueError\<close> when \<open>elem\<close> has no
  \<open>=\<close>; \<open>fields.extend\<close> appends one pair per value.
\<close>

fun feats_loop :: "string list \<Rightarrow> (string \<times> string) list \<Rightarrow> error + (string \<times> string) list" where
  "feats_loop [] fields = Inr fields"
| "feats_loop (elem # elems) fields =
     (case split_first (CHR ''='') elem of
        [key, vals] \<Rightarrow> feats_loop elems (fields @ map (Pair key) (split_on (CHR '','') vals))
      | _ \<Rightarrow> Inl ValueError)"

definition descr_to_feats :: "string \<Rightarrow> bool \<Rightarrow> error + string \<times> (string \<times> string) list" where
  "descr_to_feats symbol return_dict =
     (if CHR '','' \<in> set symbol
      then (case split_first (CHR '','') symbol of
              [symbol', feats] \<Rightarrow>
                (case feats_loop (split_on (CHR ''|'') feats) [] of
                   Inl e \<Rightarrow> Inl e
                 | Inr fields \<Rightarrow> Inr (symbol', if return_dict then py_dict fields else fields))
            | _ \<Rightarrow> Inl ValueError)
      else Inr (symbol, []))"

text \<open>
  The loop \<open>for key, value in first_descr.items()\<close> of \<open>is_subsumed\<close>;
  \<open>second_descr.get(key)\<close> is \<open>None\<close> for a missing key, which differs from every string.
\<close>

fun subsumed_loop :: "(string \<times> string) list \<Rightarrow> (string \<times> string) list \<Rightarrow> bool" where
  "subsumed_loop [] second_descr = True"
| "subsumed_loop ((key, val) # items) second_descr =
     (if key = ''Abbr'' then subsumed_loop items second_descr
      else (let val1 = (if val = ''Ptan'' then ''Plur'' else val);
                val2 = (if val1 = ''Brev'' then ''Short'' else val1)
            in if map_of second_descr key = Some val2
               then subsumed_loop items second_descr else False))"

definition is_subsumed :: "string \<Rightarrow> string \<Rightarrow> error + bool" where
  "is_subsumed first_tag second_tag =
     (case descr_to_feats first_tag True of
        Inl e \<Rightarrow> Inl e
      | Inr (first_pos, first_descr) \<Rightarrow>
          (case descr_to_feats second_tag True of
             Inl e \<Rightarrow> Inl e
           | Inr (second_pos, second_descr) \<Rightarrow>
               if first_pos = second_pos then Inr (subsumed_loop first_descr second_descr)
               else Inr False))"

text \<open>
  The words of the specification for \<open>is_subsumed\<close>: the POS part of a tag is the text before
  its first comma, or the whole tag when it has no comma; the values \<open>Ptan\<close> and \<open>Brev\<close> of
  the first tag are read as \<open>Plur\<close> and \<open>Short\<close>.
\<close>

definition pos_part :: "string \<Rightarrow> string" where
  "pos_part tag = takeWhile (\<lambda>c. c \<noteq> CHR '','') tag"

definition read_value :: "string \<Rightarrow> string" where
  "read_value v = (if v = ''Ptan'' then ''Plur'' else if v = ''Brev'' then ''Short'' else v)"

text \<open>
  The features of a tag as written, for stating what \<open>is_subsumed\<close> compares. The feature part
  of a tag is the text after its first comma, a list of elements separated by \<open>|\<close>. A tag is
  well formed when it has no comma or every element of its feature part contains \<open>=\<close>. An
  element \<open>key=v1,v2\<close> writes the pairs \<open>(key, v1)\<close> and \<open>(key, v2)\<close>. The feature dictionary
  of the tag holds one value per key: the last one written.
\<close>

definition feats_part :: "string \<Rightarrow> string" where
  "feats_part tag = tl (dropWhile (\<lambda>c. c \<noteq> CHR '','') tag)"

definition well_formed_tag :: "string \<Rightarrow> bool" where
  "well_formed_tag tag =
     (CHR '','' \<in> set tag \<longrightarrow>
        list_all (\<lambda>elem. CHR ''='' \<in> set elem) (split_on (CHR ''|'') (feats_part tag)))"

definition elem_pairs :: "string \<Rightarrow> (string \<times> string) list" where
  "elem_pairs elem =
     map (Pair (takeWhile (\<lambda>c. c \<noteq> CHR ''='') elem))
       (split_on (CHR '','') (tl (dropWhile (\<lambda>c. c \<noteq> CHR ''='') elem)))"

definition field_pairs :: "string \<Rightarrow> (string \<times> string) list" where
  "field_pairs tag =
     (if CHR '','' \<in> set tag
      then concat (map elem_pairs (split_on (CHR ''|'') (feats_part tag)))
      else [])"

definition last_value :: "string \<Rightarrow> string \<Rightarrow> string option" where
  "last_value tag key = map_of (rev (field_pairs tag)) key"

section \<open>The tree decoder chu\_liu\_edmonds (package dependency\_decoding)\<close>

text \<open>
  \<open>predict_heads\<close> decodes every probability matrix with \<open>chu_liu_edmonds\<close>, imported from
  the package \<open>dependency_decoding\<close>, whose source is not part of \<open>src/\<close>. The definitions of
  this section are therefore written from section 4.3 of the specification. A score matrix
  is a list of rows, \<open>m ! d ! h\<close> being the score of dependent \<open>d\<close> attaching to head \<open>h\<close>;
  node 0 is the virtual root; scores are exact rationals.
\<close>

type_synonym matrix = "rat list list"

text \<open>
  Modelled from the spec: the arg-max used by every selection step of the decoder (the
  first of the highest-scoring candidates), over a first candidate and a list of others.
\<close>

fun argmax_from :: "('a \<Rightarrow> rat) \<Rightarrow> 'a \<Rightarrow> 'a list \<Rightarrow> 'a" where
  "argmax_from f best [] = best"
| "argmax_from f best (x # xs) = argmax_from f (if f best < f x then x else best) xs"

text \<open>
  Modelled from the spec: step 1 of the algorithm, "for each non-root node, greedily select
  the highest-scoring incoming edge as a candidate head". The candidates of \<open>v\<close> are the root
  and every other node.
\<close>

definition greedy_head :: "nat list \<Rightarrow> (nat \<Rightarrow> nat \<Rightarrow> rat) \<Rightarrow> nat \<Rightarrow> nat" where
  "greedy_head nodes score v = argmax_from (score v) 0 (filter (\<lambda>h. h \<noteq> v) nodes)"

text \<open>
  Modelled from the spec: the cycle test of steps 2 and 3, "a cycle among non-root nodes".
  \<open>walk\<close> follows the candidate heads from \<open>cur\<close> through non-root nodes until it is back at
  \<open>start\<close>, for at most \<open>fuel\<close> further steps, and returns the nodes it passed.
\<close>

fun walk :: "(nat \<Rightarrow> nat) \<Rightarrow> nat list \<Rightarrow> nat \<Rightarrow> nat \<Rightarrow> nat \<Rightarrow> nat list option" where
  "walk g nodes start cur 0 = (if g cur = start then Some [cur] else None)"
| "walk g nodes start cur (Suc fuel) =
     (if g cur = start then Some [cur]
      else if g cur \<in> set nodes then map_option (Cons cur) (walk g nodes start (g cur) fuel)
      else None)"

text \<open>
  Modelled from the spec: the cycle through \<open>v\<close>, if there is one. A node is never its own
  candidate head, so a cycle has at least two nodes.
\<close>

definition cycle_at :: "(nat \<Rightarrow> nat) \<Rightarrow> nat list \<Rightarrow> nat \<Rightarrow> nat list option" where
  "cycle_at g nodes v = (if g v = v then None else walk g nodes v v (length nodes))"

text \<open>Modelled from the spec: the first cycle of the candidate selection, if it has one.\<close>

fun find_cycle :: "(nat \<Rightarrow> nat) \<Rightarrow> nat list \<Rightarrow> nat list \<Rightarrow> nat list option" where
  "find_cycle g nodes [] = None"
| "find_cycle g nodes (v # vs) =
     (case cycle_at g nodes v of Some cyc \<Rightarrow> Some cyc | None \<Rightarrow> find_cycle g nodes vs)"

text \<open>
  Modelled from the spec: step 3, "contract it into a single node, recompute edge weights
  into/out of the contracted node by the standard adjusted-weight rule (subtract the cycle's
  internal edge weight, add the external edge weight)". The cycle \<open>cyc\<close> is contracted into
  its first node \<open>hd cyc\<close>. \<open>cycle_weight\<close> is the weight of the edges of the cycle.
\<close>

definition cycle_weight :: "(nat \<Rightarrow> nat \<Rightarrow> rat) \<Rightarrow> (nat \<Rightarrow> nat) \<Rightarrow> nat list \<Rightarrow> rat" where
  "cycle_weight score g cyc = sum_list (map (\<lambda>x. score x (g x)) cyc)"

text \<open>
  Modelled from the spec: the cycle node at which the best edge from the outside head \<open>h\<close>
  enters the cycle, by the adjusted weight (the edge's weight minus the weight of the cycle
  edge it replaces).
\<close>

definition enter_node :: "(nat \<Rightarrow> nat \<Rightarrow> rat) \<Rightarrow> (nat \<Rightarrow> nat) \<Rightarrow> nat list \<Rightarrow> nat \<Rightarrow> nat" where
  "enter_node score g cyc h = argmax_from (\<lambda>x. score x h - score x (g x)) (hd cyc) (tl cyc)"

text \<open>
  Modelled from the spec: the best head inside the cycle for the outside dependent \<open>d\<close>.
\<close>

definition into_node :: "(nat \<Rightarrow> nat \<Rightarrow> rat) \<Rightarrow> nat list \<Rightarrow> nat \<Rightarrow> nat" where
  "into_node score cyc d = argmax_from (score d) (hd cyc) (tl cyc)"

text \<open>
  Modelled from the spec: the edge weights of the reduced graph, into the contracted node
  (first case), out of it (second case), and elsewhere.
\<close>

definition contracted_score ::
  "(nat \<Rightarrow> nat \<Rightarrow> rat) \<Rightarrow> (nat \<Rightarrow> nat) \<Rightarrow> nat list \<Rightarrow> nat \<Rightarrow> nat \<Rightarrow> rat" where
  "contracted_score score g cyc d h =
     (if d = hd cyc
      then score (enter_node score g cyc h) h
             - score (enter_node score g cyc h) (g (enter_node score g cyc h))
             + cycle_weight score g cyc
      else if h = hd cyc then score d (into_node score cyc d)
      else score d h)"

text \<open>
  Modelled from the spec: the nodes of the reduced graph, the cycle being represented by its
  first node.
\<close>

definition remaining :: "nat list \<Rightarrow> nat list \<Rightarrow> nat list" where
  "remaining nodes cyc = filter (\<lambda>v. v \<notin> set (tl cyc)) nodes"

text \<open>
  Modelled from the spec: step 3, "expand the contraction back, replacing exactly one cycle
  edge with the edge that enters the contracted node from outside". \<open>h'\<close> is the tree of the
  reduced graph.
\<close>

definition expand ::
  "(nat \<Rightarrow> nat \<Rightarrow> rat) \<Rightarrow> (nat \<Rightarrow> nat) \<Rightarrow> nat list \<Rightarrow> (nat \<Rightarrow> nat) \<Rightarrow> nat \<Rightarrow> nat" where
  "expand score g cyc h' v =
     (if v \<in> set cyc
      then (if v = enter_node score g cyc (h' (hd cyc)) then h' (hd cyc) else g v)
      else if h' v = hd cyc then into_node score cyc v
      else h' v)"

lemma walk_shape:
  "walk g nodes start cur fuel = Some cyc \<Longrightarrow>
     cyc \<noteq> [] \<and> hd cyc = cur \<and> set (tl cyc) \<subseteq> set nodes \<and> (g cur \<noteq> start \<longrightarrow> tl cyc \<noteq> [])"
proof (induction fuel arbitrary: cur cyc)
  case 0
  then show ?case by (auto split: if_splits)
next
  case (Suc fuel)
  show ?case
  proof (cases "g cur = start")
    case True
    then show ?thesis using Suc.prems by auto
  next
    case False
    with Suc.prems obtain rest where mem: "g cur \<in> set nodes"
      and rest: "walk g nodes start (g cur) fuel = Some rest" and cyc: "cyc = cur # rest"
      by (auto split: if_splits)
    from Suc.IH[OF rest] have "rest \<noteq> []" "hd rest = g cur" "set (tl rest) \<subseteq> set nodes"
      by auto
    then show ?thesis using cyc mem False by (cases rest) auto
  qed
qed

lemma find_cycle_shrinks:
  "find_cycle g nodes vs = Some cyc \<Longrightarrow> length (remaining nodes cyc) < length nodes"
proof (induction vs)
  case Nil
  then show ?case by simp
next
  case (Cons v vs)
  show ?case
  proof (cases "cycle_at g nodes v")
    case None
    then show ?thesis using Cons by simp
  next
    case (Some c)
    then have c: "c = cyc" using Cons.prems by simp
    from Some have "g v \<noteq> v" and "walk g nodes v v (length nodes) = Some cyc"
      unfolding c cycle_at_def by (auto split: if_splits)
    from walk_shape[OF this(2)] this(1)
    have "tl cyc \<noteq> []" and "set (tl cyc) \<subseteq> set nodes" by auto
    then obtain x where "x \<in> set (tl cyc)" "x \<in> set nodes"
      by (cases "tl cyc") auto
    then show ?thesis unfolding remaining_def
      by (intro length_filter_less[of x]) auto
  qed
qed

text \<open>
  Modelled from the spec: steps 1 to 3 as one recursion, "if the candidate selection contains
  no cycle among non-root nodes, it is optimal: return it", otherwise contract, "recurse on
  the reduced graph, then expand".
\<close>

function contract_loop :: "nat list \<Rightarrow> (nat \<Rightarrow> nat \<Rightarrow> rat) \<Rightarrow> nat \<Rightarrow> nat" where
  "contract_loop nodes score =
     (case find_cycle (greedy_head nodes score) nodes nodes of
        None \<Rightarrow> greedy_head nodes score
      | Some cyc \<Rightarrow>
          expand score (greedy_head nodes score) cyc
            (contract_loop (remaining nodes cyc)
               (contracted_score score (greedy_head nodes score) cyc)))"
  by pat_completeness auto
termination
  by (relation "measure (\<lambda>(nodes, score). length nodes)") (auto simp: find_cycle_shrinks)

declare contract_loop.simps [simp del]

text \<open>
  Modelled from the spec: the shapes the decoder accepts, "if the input matrix has invalid
  shape (not square, or smaller than 2x2) the decoder must fail".
\<close>

definition valid_shape :: "matrix \<Rightarrow> bool" where
  "valid_shape m = (2 \<le> length m \<and> list_all (\<lambda>row. length row = length m) m)"

text \<open>
  Modelled from the spec: the contract of the decoder, "given an (N+1)x(N+1) probability or
  score matrix for one sentence, return an ordered sequence of head indices", and its
  failure, "the decoder must fail with a shape-mismatch error rather than attempt decoding".
  The result stands for the first component of the tuple the function returns; its entry for
  the root, which \<open>predict_heads\<close> drops, is written 0.
\<close>

definition chu_liu_edmonds :: "matrix \<Rightarrow> error + nat list" where
  "chu_liu_edmonds m =
     (if valid_shape m
      then Inr (0 # map (contract_loop [1..<length m] (\<lambda>d h. m ! d ! h)) [1..<length m])
      else Inl ShapeMismatch)"

text \<open>
  What the specification calls a tree, for a head sequence \<open>heads\<close> with one entry per
  non-root node (the head of node \<open>v\<close> is \<open>heads ! (v - 1)\<close>; the root 0 has no head and is
  kept fixed): every head is a node of the sentence, no node is its own head, and following
  the heads from any node reaches the root after finitely many steps.
\<close>

definition head_of :: "nat list \<Rightarrow> nat \<Rightarrow> nat" where
  "head_of heads v = (if v = 0 then 0 else heads ! (v - 1))"

definition is_tree :: "nat list \<Rightarrow> bool" where
  "is_tree heads =
     (\<forall>d\<in>{1..length heads}.
        head_of heads d \<le> length heads \<and> head_of heads d \<noteq> d \<and>
        (\<exists>k. (head_of heads ^^ k) d = 0))"

section \<open>The parser and its inference methods (syntax/network.py)\<close>

text \<open>
  The attributes of \<open>StrangeSyntacticParser\<close> that the modelled methods read or assign. An
  attribute that has not been assigned yet is \<open>None\<close>; reading it raises \<open>AttributeError\<close>.
  \<open>'v\<close> is the class \<open>Vocabulary\<close>, \<open>'f\<close> the class \<open>FeatureVocabulary\<close>, \<open>'m\<close> a compiled
  network. A method is a function from the parser to the parser after the call and the
  outcome of the call.
\<close>

record ('v, 'f, 'm) parser =
  use_tags :: bool
  use_char_model :: bool
  symbol_vocabulary :: "'v option"
  tag_vocabulary :: "'f option"
  dep_vocab :: "'v option"
  head_model :: "'m option"
  dep_model :: "'m option"

text \<open>
  The collaborators of the inference methods, none of them under \<open>src/\<close>, as parameters:
  \<open>pad_data\<close> of \<open>syntax.common\<close> on one argument; the batches \<open>(batch, indexes)\<close> that
  \<open>DataGenerator(data, yield_targets=False, yield_indexes=True, nepochs=1)\<close> yields (sentence
  indexes are natural numbers); \<open>model.predict\<close> of the head network, one matrix of
  probabilities per sentence of the batch; \<open>make_indexes_for_syntax\<close>; the batches of the
  generator of \<open>predict_deps\<close>; the labels \<open>np.argmax(dep_model.predict(batch), axis=-1)\<close>;
  and the attribute \<open>symbols_\<close> of a vocabulary.
\<close>

record ('v, 'm, 'b, 'i) inference =
  pad_data :: "string list list \<Rightarrow> string list list"
  head_batches :: "string list list \<Rightarrow> ('b \<times> nat list) list"
  head_predict :: "'m \<Rightarrow> 'b \<Rightarrow> matrix list"
  make_indexes_for_syntax :: "nat list list \<Rightarrow> 'i \<times> 'i"
  dep_batches :: "string list list \<Rightarrow> 'i \<times> 'i \<Rightarrow> ('b \<times> nat list) list"
  dep_labels :: "'m \<Rightarrow> 'b \<Rightarrow> nat list list"
  symbols :: "'v \<Rightarrow> string list"

text \<open>
  Python's \<open>xs[:k]\<close> for an integer \<open>k\<close> (a negative \<open>k\<close> counts from the end) and
  \<open>xs[1:k]\<close>.
\<close>

definition slice_to :: "int \<Rightarrow> 'a list \<Rightarrow> 'a list" where
  "slice_to k xs = (if k < 0 then take (length xs - nat (- k)) xs else take (nat k) xs)"

definition slice_1_to :: "int \<Rightarrow> 'a list \<Rightarrow> 'a list" where
  "slice_1_to k xs = drop 1 (slice_to k xs)"

text \<open>\<open>batch_probs[i][:L - 1, :L - 1]\<close>: the first \<open>L - 1\<close> rows, and of each its first \<open>L - 1\<close> entries.\<close>

definition truncate_probs :: "nat \<Rightarrow> matrix \<Rightarrow> matrix" where
  "truncate_probs L m = map (slice_to (int L - 1)) (slice_to (int L - 1) m)"

text \<open>
  \<open>curr_probs /= np.sum(curr_probs, axis=-1)\<close>. The sum over the last axis is the vector of
  the row sums; dividing a matrix by a vector aligns the vector with the last axis of the
  matrix, so the entry in row \<open>d\<close> and column \<open>h\<close> is divided by the sum of row \<open>h\<close>. numpy
  accepts the shapes when the matrix is square or has one row, and raises otherwise. Entries
  are exact rationals; the quotient agrees with numpy's where the divisor is not zero.
\<close>

definition normalize_probs :: "matrix \<Rightarrow> error + matrix" where
  "normalize_probs m =
     (if list_all (\<lambda>row. length row = length m) m
      then Inr (map (\<lambda>row. map (\<lambda>(x, s). x / s) (zip row (map sum_list m))) m)
      else if length m = 1 then Inr (map (map (\<lambda>x. x / sum_list (hd m))) m)
      else Inl ValueError)"

text \<open>
  The body of the inner loop of \<open>predict_heads\<close> for one sentence: the matrix stored in
  \<open>probs[index]\<close>. \<open>np.argmax(curr_probs[1:], axis=-1)\<close>, whose result is not used, raises
  \<open>ValueError\<close> when the matrix has no column.
\<close>

definition curr_probs :: "nat \<Rightarrow> matrix \<Rightarrow> error + matrix" where
  "curr_probs L m =
     (case normalize_probs (truncate_probs L m) of
        Inl e \<Rightarrow> Inl e
      | Inr cp \<Rightarrow> if cp = [] \<or> hd cp = [] then Inl ValueError else Inr cp)"

text \<open>The inner loop \<open>for i, index in enumerate(indexes)\<close>, from position \<open>i\<close> on.\<close>

fun fill_probs ::
  "string list list \<Rightarrow> matrix list \<Rightarrow> nat \<Rightarrow> nat list \<Rightarrow> matrix option list
     \<Rightarrow> error + matrix option list" where
  "fill_probs data batch_probs i [] probs = Inr probs"
| "fill_probs data batch_probs i (index # indexes) probs =
     (if length data \<le> index then Inl IndexError
      else if length batch_probs \<le> i then Inl IndexError
      else (case curr_probs (length (data ! index)) (batch_probs ! i) of
              Inl e \<Rightarrow> Inl e
            | Inr cp \<Rightarrow>
                fill_probs data batch_probs (i + 1) indexes (probs[index := Some cp])))"

text \<open>The outer loop \<open>for batch_index, (batch, indexes) in enumerate(test_gen)\<close>.\<close>

fun probs_loop ::
  "('v, 'm, 'b, 'i) inference \<Rightarrow> 'm option \<Rightarrow> string list list \<Rightarrow> ('b \<times> nat list) list
     \<Rightarrow> matrix option list \<Rightarrow> error + matrix option list" where
  "probs_loop E model data [] probs = Inr probs"
| "probs_loop E model data ((batch, indexes) # batches) probs =
     (case model of
        None \<Rightarrow> Inl AttributeError
      | Some net \<Rightarrow>
          (case fill_probs data (head_predict E net batch) 0 indexes probs of
             Inl e \<Rightarrow> Inl e
           | Inr probs' \<Rightarrow> probs_loop E model data batches probs'))"

text \<open>
  \<open>[chu_liu_edmonds(elem.astype("float64"))[0][1:] for elem in probs]\<close>: an entry that is
  still \<open>None\<close> has no \<open>astype\<close>; an error of the decoder ends the comprehension.
\<close>

fun decode_all :: "matrix option list \<Rightarrow> error + nat list list" where
  "decode_all [] = Inr []"
| "decode_all (None # probs) = Inl AttributeError"
| "decode_all (Some m # probs) =
     (case chu_liu_edmonds m of
        Inl e \<Rightarrow> Inl e
      | Inr hs \<Rightarrow>
          (case decode_all probs of Inl e \<Rightarrow> Inl e | Inr rest \<Rightarrow> Inr (drop 1 hs # rest)))"

definition predict_heads ::
  "('v, 'm, 'b, 'i) inference \<Rightarrow> ('v, 'f, 'm) parser \<Rightarrow> string list list
     \<Rightarrow> ('v, 'f, 'm) parser \<times> (error + matrix list \<times> nat list list)" where
  "predict_heads E P data =
     (P, case probs_loop E (head_model P) data (head_batches E data)
                (replicate (length data) None) of
           Inl e \<Rightarrow> Inl e
         | Inr probs \<Rightarrow>
             (case decode_all probs of
                Inl e \<Rightarrow> Inl e
              | Inr chl_pred_heads \<Rightarrow> Inr (map the probs, chl_pred_heads)))"

text \<open>
  \<open>[self.dep_vocab.symbols_[elem] for elem in curr_labels]\<close>, given the list
  \<open>dep_vocab.symbols_\<close>, or \<open>None\<close> when the parser has no \<open>dep_vocab\<close>. The attribute is read
  once per element: with no label to name nothing is read and nothing raised; otherwise a
  missing vocabulary raises \<open>AttributeError\<close> and a label index beyond the vocabulary
  \<open>IndexError\<close>.
\<close>

fun label_names :: "string list option \<Rightarrow> nat list \<Rightarrow> error + string list" where
  "label_names names [] = Inr []"
| "label_names names (elem # elems) =
     (case names of
        None \<Rightarrow> Inl AttributeError
      | Some known \<Rightarrow>
          if length known \<le> elem then Inl IndexError
          else (case label_names names elems of
                  Inl e \<Rightarrow> Inl e
                | Inr rest \<Rightarrow> Inr (known ! elem # rest)))"

text \<open>
  The labels stored in \<open>answer[index]\<close> for a sentence of padded length \<open>L\<close> from its row of
  label indexes: the names of \<open>batch_labels[i][1:L - 1]\<close>.
\<close>

definition curr_labels :: "string list option \<Rightarrow> nat \<Rightarrow> nat list \<Rightarrow> error + string list" where
  "curr_labels names L row = label_names names (slice_1_to (int L - 1) row)"

text \<open>The inner and the outer loop of \<open>predict_deps\<close>.\<close>

fun fill_labels ::
  "string list option \<Rightarrow> string list list \<Rightarrow> nat list list \<Rightarrow> nat \<Rightarrow> nat list
     \<Rightarrow> string list option list \<Rightarrow> error + string list option list" where
  "fill_labels names data batch_labels i [] answer = Inr answer"
| "fill_labels names data batch_labels i (index # indexes) answer =
     (if length data \<le> index then Inl IndexError
      else if length batch_labels \<le> i then Inl IndexError
      else (case curr_labels names (length (data ! index)) (batch_labels ! i) of
              Inl e \<Rightarrow> Inl e
            | Inr labels \<Rightarrow>
                fill_labels names data batch_labels (i + 1) indexes
                  (answer[index := Some labels])))"

fun labels_loop ::
  "('v, 'm, 'b, 'i) inference \<Rightarrow> ('v, 'f, 'm) parser \<Rightarrow> string list list
     \<Rightarrow> ('b \<times> nat list) list \<Rightarrow> string list option list
     \<Rightarrow> error + string list option list" where
  "labels_loop E P data [] answer = Inr answer"
| "labels_loop E P data ((batch, indexes) # batches) answer =
     (case dep_model P of
        None \<Rightarrow> Inl AttributeError
      | Some net \<Rightarrow>
          (case fill_labels (map_option (symbols E) (dep_vocab P)) data
                  (dep_labels E net batch) 0 indexes answer of
             Inl e \<Rightarrow> Inl e
           | Inr answer' \<Rightarrow> labels_loop E P data batches answer'))"

definition predict_deps ::
  "('v, 'm, 'b, 'i) inference \<Rightarrow> ('v, 'f, 'm) parser \<Rightarrow> string list list \<Rightarrow> nat list list
     \<Rightarrow> ('v, 'f, 'm) parser \<times> (error + string list option list)" where
  "predict_deps E P data heads =
     (P, labels_loop E P data (dep_batches E data (make_indexes_for_syntax E heads))
           (replicate (length data) None))"

text \<open>
  \<open>predict\<close>: pad, predict the heads, predict the labels for these heads, and return the
  decoded heads with the labels.
\<close>

definition predict ::
  "('v, 'm, 'b, 'i) inference \<Rightarrow> ('v, 'f, 'm) parser \<Rightarrow> string list list
     \<Rightarrow> ('v, 'f, 'm) parser \<times> (error + nat list list \<times> string list option list)" where
  "predict E P data =
     (case predict_heads E P (pad_data E data) of
        (P1, Inl e) \<Rightarrow> (P1, Inl e)
      | (P1, Inr (head_probs, chl_pred_heads)) \<Rightarrow>
          (case predict_deps E P1 (pad_data E data) chl_pred_heads of
             (P2, Inl e) \<Rightarrow> (P2, Inl e)
           | (P2, Inr deps) \<Rightarrow> (P2, Inr (chl_pred_heads, deps))))"

text \<open>
  For stating which sentence an entry of a result belongs to: the rows a network returns
  for the batches of a generator, each with the sentence index yielded at its position, in
  the order in which the loops meet them; and the last row yielded for a sentence index,
  the one whose result stays stored.
\<close>

definition yielded :: "('b \<times> nat list) list \<Rightarrow> ('b \<Rightarrow> 'r list) \<Rightarrow> (nat \<times> 'r) list" where
  "yielded batches rows = concat (map (\<lambda>(batch, indexes). zip indexes (rows batch)) batches)"

definition latest :: "(nat \<times> 'r) list \<Rightarrow> nat \<Rightarrow> 'r option" where
  "latest pairs k = map_of (rev pairs) k"

text \<open>
  A concrete parser and concrete collaborators, on which the theorems below are instantiated:
  sentences are padded with boundary markers, every sentence is a batch of its own, named by
  its index; the head network returns a fixed 3x3 matrix for batch 0 and a fixed 4x4 matrix
  for the other batches, both with rows that sum to 1, and the label network a fixed row of
  label indexes for each.
\<close>

abbreviation example_inference :: "(string list, unit, nat, unit) inference" where
  "example_inference \<equiv>
     \<lparr>pad_data = map (\<lambda>sent. ''<s>'' # sent @ [''</s>'']),
      head_batches = (\<lambda>data. map (\<lambda>k. (k, [k])) [0..<length data]),
      head_predict = (\<lambda>net batch.
         if batch = 0
         then [[[1 / 4, 1 / 4, 1 / 2], [1 / 8, 1 / 8, 3 / 4], [1 / 4, 1 / 4, 1 / 2]]]
         else [[[1 / 4, 1 / 4, 1 / 4, 1 / 4], [1 / 2, 1 / 8, 1 / 8, 1 / 4],
                [1 / 8, 1 / 2, 1 / 8, 1 / 4], [1 / 4, 1 / 4, 1 / 4, 1 / 4]]]),
      make_indexes_for_syntax = (\<lambda>heads. ((), ())),
      dep_batches = (\<lambda>data indexes. map (\<lambda>k. (k, [k])) [0..<length data]),
      dep_labels = (\<lambda>net batch. if batch = 0 then [[0, 1, 0]] else [[0, 2, 1, 0]]),
      symbols = (\<lambda>vocab. vocab)\<rparr>"

abbreviation example_parser :: "(string list, unit, unit) parser" where
  "example_parser \<equiv>
     \<lparr>use_tags = False, use_char_model = False, symbol_vocabulary = None,
      tag_vocabulary = None, dep_vocab = Some [''root'', ''nsubj'', ''obj''],
      head_model = Some (), dep_model = Some ()\<rparr>"

section \<open>Training (syntax/network.py)\<close>

text \<open>
  The data handed to the networks: the padded sentences themselves, or their character
  codes when the parser uses the character model.
\<close>

datatype 'c sent_data = Words "string list list" | Coded "'c list"

text \<open>
  The collaborators of \<open>train\<close> as parameters: \<open>pad_data\<close> on sentences, heads and labels;
  \<open>process_word\<close> (with the fixed keyword arguments of \<open>_transform_data\<close>);
  \<open>Vocabulary(character=True, min_count=3).train\<close>; \<open>FeatureVocabulary(min_count=3).train\<close>
  and its \<open>to_vector\<close>; \<open>Vocabulary(min_count=3).train\<close>; building and fitting the two
  networks (\<open>build_head_network\<close>, \<open>build_dep_network\<close>, the generators and
  \<open>fit_generator\<close>, which returns the fitted network). \<open>_recode\<close> is a parameter too: it
  fills an array from \<open>self.symbol_vocabulary.toidx\<close>, and what matters here is the
  vocabulary it is given, the attribute as it is at the call.
\<close>

record ('v, 'f, 'm, 's, 'c, 't) training =
  pad_data3 ::
    "string list list \<times> int list list \<times> string list list
       \<Rightarrow> string list list \<times> int list list \<times> string list list"
  process_word :: "string \<Rightarrow> 's"
  train_symbols :: "'s list list \<Rightarrow> 'v"
  recode :: "'v option \<Rightarrow> 's list \<Rightarrow> error + 'c"
  train_features :: "string list list \<Rightarrow> 'f"
  to_vector :: "'f \<Rightarrow> string \<Rightarrow> 't"
  train_labels :: "string list list \<Rightarrow> 'v"
  build_head_network :: "('v, 'f, 'm) parser \<Rightarrow> error + 'm"
  fit_head ::
    "'m \<Rightarrow> 'c sent_data \<Rightarrow> int list list \<Rightarrow> ('c sent_data \<times> int list list) option
       \<Rightarrow> 't list list option \<Rightarrow> 't list list option \<Rightarrow> error + 'm"
  build_dep_network :: "('v, 'f, 'm) parser \<Rightarrow> error + 'm"
  fit_dep ::
    "'m \<Rightarrow> 'v option \<Rightarrow> 'c sent_data \<times> int list list \<times> string list list
       \<Rightarrow> ('c sent_data \<times> int list list \<times> string list list) option
       \<Rightarrow> 't list list option \<Rightarrow> 't list list option \<Rightarrow> error + 'm"

text \<open>A comprehension whose element expression can raise: the first error ends it.\<close>

fun map_result :: "('a \<Rightarrow> error + 'b) \<Rightarrow> 'a list \<Rightarrow> error + 'b list" where
  "map_result f [] = Inr []"
| "map_result f (x # xs) =
     (case f x of
        Inl e \<Rightarrow> Inl e
      | Inr y \<Rightarrow> (case map_result f xs of Inl e \<Rightarrow> Inl e | Inr ys \<Rightarrow> Inr (y # ys)))"

text \<open>Sequencing of two method calls: an exception of the first ends the sequence.\<close>

definition and_then ::
  "'p \<times> (error + 'a) \<Rightarrow> ('p \<Rightarrow> 'a \<Rightarrow> 'p \<times> (error + 'b)) \<Rightarrow> 'p \<times> (error + 'b)" where
  "and_then r f = (case r of (P, Inl e) \<Rightarrow> (P, Inl e) | (P, Inr a) \<Rightarrow> f P a)"

text \<open>
  \<open>_transform_data\<close>: with \<open>to_train\<close> the symbol vocabulary is assigned, trained on the
  processed sentences; the sentences are then coded with the vocabulary of the parser.
\<close>

definition transform_data ::
  "('v, 'f, 'm, 's, 'c, 't) training \<Rightarrow> ('v, 'f, 'm) parser \<Rightarrow> string list list \<Rightarrow> bool
     \<Rightarrow> ('v, 'f, 'm) parser \<times> (error + 'c list)" where
  "transform_data E P sents to_train =
     (let sents' = map (map (process_word E)) sents;
          P' = (if to_train then P\<lparr>symbol_vocabulary := Some (train_symbols E sents')\<rparr> else P)
      in (P', map_result (recode E (symbol_vocabulary P')) sents'))"

text \<open>
  \<open>_transform_tags\<close>: iterating over \<open>None\<close> raises \<open>TypeError\<close>; with \<open>to_train\<close> the tag
  vocabulary is assigned, trained on the wrapped tag sentences; the tags are then turned into
  vectors with the tag vocabulary of the parser.
\<close>

definition transform_tags ::
  "('v, 'f, 'm, 's, 'c, 't) training \<Rightarrow> ('v, 'f, 'm) parser \<Rightarrow> string list list option \<Rightarrow> bool
     \<Rightarrow> ('v, 'f, 'm) parser \<times> (error + 't list list)" where
  "transform_tags E P sents to_train =
     (case sents of
        None \<Rightarrow> (P, Inl TypeError)
      | Some ss \<Rightarrow>
          (let sents' = map (\<lambda>sent. ''BEGIN'' # sent @ [''END'']) ss;
               P' = (if to_train then P\<lparr>tag_vocabulary := Some (train_features E sents')\<rparr>
                     else P)
           in (case tag_vocabulary P' of
                 None \<Rightarrow> (P', if sents' = [] then Inr [] else Inl AttributeError)
               | Some vocab \<Rightarrow> (P', Inr (map (map (to_vector E vocab)) sents')))))"

text \<open>
  \<open>train_head_model\<close> and \<open>train_dep_model\<close>: the network is built and assigned, then
  fitted; the tag data is passed on only when the parser uses tags.
\<close>

definition train_head_model ::
  "('v, 'f, 'm, 's, 'c, 't) training \<Rightarrow> ('v, 'f, 'm) parser \<Rightarrow> 'c sent_data \<Rightarrow> int list list
     \<Rightarrow> ('c sent_data \<times> int list list) option \<Rightarrow> 't list list option \<Rightarrow> 't list list option
     \<Rightarrow> ('v, 'f, 'm) parser \<times> (error + unit)" where
  "train_head_model E P sents heads dev tags dev_tags =
     (case build_head_network E P of
        Inl e \<Rightarrow> (P, Inl e)
      | Inr net \<Rightarrow>
          (case fit_head E net sents heads dev
                  (if use_tags P then tags else None)
                  (if use_tags P then dev_tags else None) of
             Inl e \<Rightarrow> (P\<lparr>head_model := Some net\<rparr>, Inl e)
           | Inr net' \<Rightarrow> (P\<lparr>head_model := Some net'\<rparr>, Inr ())))"

definition train_dep_model ::
  "('v, 'f, 'm, 's, 'c, 't) training \<Rightarrow> ('v, 'f, 'm) parser
     \<Rightarrow> 'c sent_data \<times> int list list \<times> string list list
     \<Rightarrow> ('c sent_data \<times> int list list \<times> string list list) option
     \<Rightarrow> 't list list option \<Rightarrow> 't list list option
     \<Rightarrow> ('v, 'f, 'm) parser \<times> (error + unit)" where
  "train_dep_model E P train_set dev tags dev_tags =
     (case build_dep_network E P of
        Inl e \<Rightarrow> (P, Inl e)
      | Inr net \<Rightarrow>
          (case fit_dep E net (dep_vocab P) train_set dev
                  (if use_tags P then tags else None)
                  (if use_tags P then dev_tags else None) of
             Inl e \<Rightarrow> (P\<lparr>dep_model := Some net\<rparr>, Inl e)
           | Inr net' \<Rightarrow> (P\<lparr>dep_model := Some net'\<rparr>, Inr ())))"

text \<open>
  The encoding of the development data in \<open>train\<close>: only when \<open>dev_sents\<close> is given; with
  \<open>to_train\<close> left at its default \<open>False\<close>; the tags only when the parser uses tags.
\<close>

definition encode_dev ::
  "('v, 'f, 'm, 's, 'c, 't) training \<Rightarrow> ('v, 'f, 'm) parser
     \<Rightarrow> (string list list \<times> int list list \<times> string list list) option
     \<Rightarrow> string list list option
     \<Rightarrow> ('v, 'f, 'm) parser \<times>
         (error + ('c sent_data \<times> int list list \<times> string list list) option \<times> 't list list option)"
  where
  "encode_dev E P dev dev_tags =
     (case dev of
        None \<Rightarrow> (P, Inr (None, None))
      | Some dev_triple \<Rightarrow>
          (case pad_data3 E dev_triple of
             (dev_sents, dev_heads, dev_deps) \<Rightarrow>
               and_then
                 (if use_char_model P
                  then and_then (transform_data E P dev_sents False)
                         (\<lambda>P1 coded. (P1, Inr (Coded coded)))
                  else (P, Inr (Words dev_sents)))
                 (\<lambda>P1 dev_sent_data.
                    and_then
                      (if use_tags P1
                       then and_then (transform_tags E P1 dev_tags False)
                              (\<lambda>P2 vectors. (P2, Inr (Some vectors)))
                       else (P1, Inr None))
                      (\<lambda>P2 dev_tag_data.
                         (P2, Inr (Some (dev_sent_data, dev_heads, dev_deps), dev_tag_data))))))"

text \<open>
  \<open>train\<close>. The development sentences, heads and labels are given together or not at all
  (the source tests \<open>dev_sents\<close>); \<open>tags\<close> and \<open>dev_tags\<close> are optional.
\<close>

definition train ::
  "('v, 'f, 'm, 's, 'c, 't) training \<Rightarrow> ('v, 'f, 'm) parser
     \<Rightarrow> string list list \<Rightarrow> int list list \<Rightarrow> string list list
     \<Rightarrow> (string list list \<times> int list list \<times> string list list) option
     \<Rightarrow> string list list option \<Rightarrow> string list list option
     \<Rightarrow> ('v, 'f, 'm) parser \<times> (error + unit)" where
  "train E P sents heads deps dev tags dev_tags =
     (case pad_data3 E (sents, heads, deps) of
        (sents, heads, deps) \<Rightarrow>
          and_then
            (if use_char_model P
             then and_then (transform_data E P sents True) (\<lambda>P1 coded. (P1, Inr (Coded coded)))
             else (P, Inr (Words sents)))
            (\<lambda>P1 sent_data.
               and_then
                 (case tags of
                    None \<Rightarrow> (P1, Inr None)
                  | Some ts \<Rightarrow>
                      and_then (transform_tags E P1 (Some ts) True)
                        (\<lambda>P2 vectors. (P2, Inr (Some vectors))))
                 (\<lambda>P2 tag_data.
                    and_then (encode_dev E P2 dev dev_tags)
                      (\<lambda>P3 (dev_data, dev_tag_data).
                         and_then
                           (train_head_model E (P3\<lparr>dep_vocab := Some (train_labels E deps)\<rparr>)
                              sent_data heads
                              (map_option (\<lambda>(s, h, d). (s, h)) dev_data) tag_data dev_tag_data)
                           (\<lambda>P4 u.
                              train_dep_model E P4 (sent_data, heads, deps) dev_data
                                tag_data dev_tag_data)))))"

text \<open>
  The vocabularies a call of \<open>train\<close> is to build, as functions of the training sentences,
  labels and tags alone.
\<close>

definition trained_symbols ::
  "('v, 'f, 'm, 's, 'c, 't) training \<Rightarrow> string list list \<Rightarrow> int list list \<Rightarrow> string list list
     \<Rightarrow> 'v" where
  "trained_symbols E sents heads deps =
     train_symbols E (map (map (process_word E)) (fst (pad_data3 E (sents, heads, deps))))"

definition trained_labels ::
  "('v, 'f, 'm, 's, 'c, 't) training \<Rightarrow> string list list \<Rightarrow> int list list \<Rightarrow> string list list
     \<Rightarrow> 'v" where
  "trained_labels E sents heads deps =
     train_labels E (snd (snd (pad_data3 E (sents, heads, deps))))"

definition trained_features ::
  "('v, 'f, 'm, 's, 'c, 't) training \<Rightarrow> string list list \<Rightarrow> 'f" where
  "trained_features E tags = train_features E (map (\<lambda>sent. ''BEGIN'' # sent @ [''END'']) tags)"

text \<open>
  For stating with which vocabulary data is encoded: the codes of sentences under a given
  symbol vocabulary and the vectors of tag sentences under a given tag vocabulary; and what
  it is for sentence data, or for tag vectors, to be the encoding of given sentences, or
  tags, under the vocabularies a parser holds (sentences are handed on as they are when the
  parser does not use the character model, and without a tag vocabulary only an empty list
  of tag sentences has vectors).
\<close>

definition coded_with ::
  "('v, 'f, 'm, 's, 'c, 't) training \<Rightarrow> 'v option \<Rightarrow> string list list \<Rightarrow> error + 'c list" where
  "coded_with E vocab sents = map_result (recode E vocab) (map (map (process_word E)) sents)"

definition vectors_with ::
  "('v, 'f, 'm, 's, 'c, 't) training \<Rightarrow> 'f \<Rightarrow> string list list \<Rightarrow> 't list list" where
  "vectors_with E vocab tags =
     map (map (to_vector E vocab)) (map (\<lambda>sent. ''BEGIN'' # sent @ [''END'']) tags)"

definition coded_as ::
  "('v, 'f, 'm, 's, 'c, 't) training \<Rightarrow> ('v, 'f, 'm) parser \<Rightarrow> string list list
     \<Rightarrow> 'c sent_data \<Rightarrow> bool" where
  "coded_as E Q sents sent_data =
     (if use_char_model Q
      then (\<exists>coded. coded_with E (symbol_vocabulary Q) sents = Inr coded \<and>
                    sent_data = Coded coded)
      else sent_data = Words sents)"

definition vectors_as ::
  "('v, 'f, 'm, 's, 'c, 't) training \<Rightarrow> ('v, 'f, 'm) parser \<Rightarrow> string list list option
     \<Rightarrow> 't list list \<Rightarrow> bool" where
  "vectors_as E Q tags vectors =
     (\<exists>ts. tags = Some ts \<and>
        (case tag_vocabulary Q of
           Some vocab \<Rightarrow> vectors = vectors_with E vocab ts
         | None \<Rightarrow> ts = [] \<and> vectors = []))"

text \<open>
  Concrete collaborators and an untrained parser, on which the theorem on \<open>train\<close> is
  instantiated: a vocabulary is the list of the distinct symbols it was trained on; a
  sentence is coded by its words that the vocabulary knows, a tag by its place in the
  vocabulary; fitting the head network returns the number of words in the coded development
  sentences, and fitting the label network the sum of the development tag vectors.
\<close>

abbreviation example_training ::
  "(string list, string list, nat, string, string list, nat) training" where
  "example_training \<equiv>
     \<lparr>pad_data3 = (\<lambda>(s, h, d).
        (map (\<lambda>x. ''<s>'' # x @ [''</s>'']) s, map (\<lambda>x. 0 # x @ [0]) h,
         map (\<lambda>x. ''PAD'' # x @ [''PAD'']) d)),
      process_word = (\<lambda>word. word),
      train_symbols = (\<lambda>sents. remdups (concat sents)),
      recode = (\<lambda>vocab sent.
        case vocab of None \<Rightarrow> Inl AttributeError
        | Some known \<Rightarrow> Inr (filter (\<lambda>word. word \<in> set known) sent)),
      train_features = (\<lambda>sents. remdups (concat sents)),
      to_vector = (\<lambda>vocab tag. length (takeWhile (\<lambda>x. x \<noteq> tag) vocab)),
      train_labels = (\<lambda>deps. remdups (concat deps)),
      build_head_network = (\<lambda>P. Inr 0),
      fit_head = (\<lambda>net sents heads dev tags dev_tags.
        Inr (case dev of Some (Coded coded, dev_heads) \<Rightarrow> length (concat coded) | _ \<Rightarrow> net)),
      build_dep_network = (\<lambda>P. Inr 0),
      fit_dep = (\<lambda>net vocab train_set dev tags dev_tags.
        Inr (case dev_tags of Some vectors \<Rightarrow> sum_list (concat vectors) | None \<Rightarrow> net))\<rparr>"

abbreviation untrained_parser :: "(string list, string list, nat) parser" where
  "untrained_parser \<equiv>
     \<lparr>use_tags = True, use_char_model = True, symbol_vocabulary = None,
      tag_vocabulary = None, dep_vocab = None, head_model = None, dep_model = None\<rparr>"

section \<open>Properties of evaluate\_heads\<close>

lemma slice_1_m1_ends: "slice_1_m1 (x # mid @ [y]) = mid"
  by (simp add: slice_1_m1_def)

lemma eval_loop_append:
  "eval_loop (xs @ ys) acc =
     (case eval_loop xs acc of Inl e \<Rightarrow> Inl e | Inr acc' \<Rightarrow> eval_loop ys acc')"
proof (induction xs acc rule: eval_loop.induct)
  case (1 acc)
  then show ?case by simp
next
  case (2 corr_sent pred_sent rest corr tot corr_sents)
  then show ?case by (simp add: Let_def split: prod.splits)
qed

lemma eval_loop_error: "eval_loop xs acc = Inl e \<Longrightarrow> e = ValueError"
  by (induction xs acc rule: eval_loop.induct) (auto simp: Let_def split: if_splits prod.splits)

lemma eval_loop_mismatch:
  assumes "length c \<noteq> length p" "length c \<noteq> length p + 2"
  shows "eval_loop (pre @ (c, p) # post) acc = Inl ValueError"
proof (cases "eval_loop pre acc")
  case (Inl e)
  then show ?thesis using eval_loop_error[OF Inl] by (simp add: eval_loop_append)
next
  case (Inr acc')
  obtain a b d where "acc' = (a, b, d)" by (cases acc') auto
  then show ?thesis using Inr assms by (simp add: eval_loop_append)
qed

lemma eval_loop_strip:
  assumes "length mid = length p"
  shows "eval_loop (pre @ (x # mid @ [y], p) # post) acc = eval_loop (pre @ (mid, p) # post) acc"
proof (cases "eval_loop pre acc")
  case (Inl e)
  then show ?thesis by (simp add: eval_loop_append)
next
  case (Inr acc')
  obtain a b d where "acc' = (a, b, d)" by (cases acc') auto
  then show ?thesis using Inr assms by (simp add: eval_loop_append slice_1_m1_ends)
qed

lemma eval_loop_Cons:
  "eval_loop ((c, p) # rest) (corr, tot, corr_sents) = Inr r \<Longrightarrow>
     (length c = length p \<or> length c = length p + 2) \<and>
     (\<exists>corr1 s1. eval_loop rest (corr1, tot + length p, s1) = Inr r)"
  by (auto simp: Let_def split: if_splits prod.splits)

lemma eval_loop_total:
  "eval_loop xs (corr, tot, corr_sents) = Inr (corr', tot', corr_sents') \<Longrightarrow>
     tot' = tot + sum_list (map (\<lambda>(c, p). length p) xs) \<and>
     (\<forall>(c, p) \<in> set xs. length c = length p \<or> length c = length p + 2)"
proof (induction xs arbitrary: corr tot corr_sents)
  case Nil
  then show ?case by simp
next
  case (Cons cp rest)
  obtain c p where cp: "cp = (c, p)" by (cases cp) auto
  from eval_loop_Cons[OF Cons.prems[unfolded cp]]
  obtain corr1 s1 where len: "length c = length p \<or> length c = length p + 2"
    and rest: "eval_loop rest (corr1, tot + length p, s1) = Inr (corr', tot', corr_sents')"
    by blast
  from Cons.IH[OF rest] show ?case using len cp by simp
qed


text \<open>
  Claim C3. For a gold sentence exactly 2 longer than the predicted one, exactly its first
  and its last element are dropped before the comparison: scoring \<open>x # mid @ [y]\<close> against
  \<open>p\<close> is scoring \<open>mid\<close> against \<open>p\<close>. For any other difference of the two lengths
  (the predicted sentence being longer included) \<open>evaluate_heads\<close> raises \<open>ValueError\<close>. And
  nothing is cut off silently: whenever a result is returned, every compared pair has
  length difference 0 or 2, and \<open>total\<close> counts every position of every compared predicted
  sentence.
\<close>

theorem evaluate_heads_length_rule:
  "length cs = length ps \<Longrightarrow>
     (length mid = length p \<longrightarrow>
        evaluate_heads (cs @ (x # mid @ [y]) # cs') (ps @ p # ps') =
        evaluate_heads (cs @ mid # cs') (ps @ p # ps')) \<and>
     (length c \<noteq> length p \<and> length c \<noteq> length p + 2 \<longrightarrow>
        evaluate_heads (cs @ c # cs') (ps @ p # ps') = Inl ValueError) \<and>
     (evaluate_heads corr_heads pred_heads = Inr (k, tot, acc, s, n, sacc) \<longrightarrow>
        tot = sum_list (map (\<lambda>(c, p). length p) (zip corr_heads pred_heads)) \<and>
        (\<forall>(c, p) \<in> set (zip corr_heads pred_heads).
            length c = length p \<or> length c = length p + 2))"
proof (intro conjI impI)
  assume len: "length cs = length ps" and mid: "length mid = length p"
  show "evaluate_heads (cs @ (x # mid @ [y]) # cs') (ps @ p # ps') =
        evaluate_heads (cs @ mid # cs') (ps @ p # ps')"
    using len eval_loop_strip[OF mid]
    by (simp add: evaluate_heads_def split: sum.splits prod.splits)
next
  assume len: "length cs = length ps"
    and "length c \<noteq> length p \<and> length c \<noteq> length p + 2"
  then show "evaluate_heads (cs @ c # cs') (ps @ p # ps') = Inl ValueError"
    using eval_loop_mismatch[of c p] by (simp add: evaluate_heads_def)
next
  assume r: "evaluate_heads corr_heads pred_heads = Inr (k, tot, acc, s, n, sacc)"
  then obtain s' where "eval_loop (zip corr_heads pred_heads) (0, 0, 0) = Inr (k, tot, s')"
    by (auto simp: evaluate_heads_def split: sum.splits if_splits)
  from eval_loop_total[OF this]
  show "tot = sum_list (map (\<lambda>(c, p). length p) (zip corr_heads pred_heads))"
    and "\<forall>(c, p) \<in> set (zip corr_heads pred_heads).
            length c = length p \<or> length c = length p + 2"
    by simp_all
qed

theorem evaluate_heads_length_rule_witness:
  "evaluate_heads [[1, 2, 3], [7, 1, 2, 0, 7]] [[1, 2, 3], [1, 2, 3]] =
     evaluate_heads [[1, 2, 3], [1, 2, 0]] [[1, 2, 3], [1, 2, 3]] \<and>
   evaluate_heads [[1, 2, 3], [1, 2, 0, 7]] [[1, 2, 3], [1, 2, 3]] = Inl ValueError \<and>
   evaluate_heads [[1, 2, 3], [7, 1, 2, 0, 7]] [[1, 2, 3], [1, 2, 3]] =
     Inr (5, 6, 5 / 6, 1, 2, 1 / 2)"
  using evaluate_heads_length_rule [where cs = "[[1, 2, 3]]" and ps = "[[1, 2, 3]]"
      and mid = "[1, 2, 0]" and p = "[1, 2, 3]" and x = 7 and y = 7 and cs' = "[]" and ps' = "[]"
      and c = "[1, 2, 0, 7]" and corr_heads = "[[1, 2, 3], [7, 1, 2, 0, 7]]"
      and pred_heads = "[[1, 2, 3], [1, 2, 3]]"
      and k = 5 and tot = 6 and acc = "5 / 6" and s = 1 and n = 2 and sacc = "1 / 2"]
  by (simp add: evaluate_heads_def slice_1_m1_def)

text \<open>
  Claim C4. The two examples of the specification: on identical heads the word accuracy
  (third component) and the sentence accuracy (sixth component) are both 1; with one wrong
  head out of three they are 2/3 and 0.
\<close>

theorem evaluate_heads_examples:
  "evaluate_heads [[1, 2, 3]] [[1, 2, 3]] = Inr (3, 3, 1, 1, 1, 1) \<and>
   evaluate_heads [[1, 2, 3]] [[1, 2, 0]] = Inr (2, 3, 2 / 3, 0, 1, 0)"
  by (simp add: evaluate_heads_def)

theorem evaluate_heads_examples_witness:
  "evaluate_heads [[1, 2, 3]] [[1, 2, 0]] = Inr (2, 3, 2 / 3, 0, 1, 0)"
  using evaluate_heads_examples by simp

lemma zip_extra_left: "length cs = length ps \<Longrightarrow> zip (cs @ extra) ps = zip cs ps"
  by (induction cs ps rule: list_induct2) auto

lemma zip_extra_right: "length cs = length ps \<Longrightarrow> zip cs (ps @ extra) = zip cs ps"
  by (induction cs ps rule: list_induct2) auto

text \<open>
  Claim C10. When the gold list has more sentences than the predicted list (\<open>cs @ extra\<close>
  against \<open>ps\<close>), no error is raised for the surplus: the outcome is that of the zipped
  pairs, an error only where those raise one, and the sentence accuracy is the number of
  exactly matching sentences divided by the number of gold sentences \<open>len(corr_heads)\<close>,
  surplus included. When the predicted list is the longer one, its surplus is ignored
  altogether.
\<close>

theorem evaluate_heads_sentence_count:
  "length cs = length ps \<Longrightarrow>
     evaluate_heads (cs @ extra) ps =
       (case evaluate_heads cs ps of
          Inl e \<Rightarrow> Inl e
        | Inr (corr, tot, acc, corr_sents, n, sacc) \<Rightarrow>
            Inr (corr, tot, acc, corr_sents, length cs + length extra,
                 of_nat corr_sents / of_nat (length cs + length extra))) \<and>
     evaluate_heads cs (ps @ extra) = evaluate_heads cs ps"
  by (auto simp: evaluate_heads_def zip_extra_left zip_extra_right split: sum.splits prod.splits)

theorem evaluate_heads_sentence_count_witness:
  "evaluate_heads [[1, 2, 3], [2, 0], [0]] [[1, 2, 3]] = Inr (3, 3, 1, 1, 3, 1 / 3) \<and>
   evaluate_heads [[1, 2, 3]] [[1, 2, 3]] = Inr (3, 3, 1, 1, 1, 1) \<and>
   evaluate_heads [[1, 2, 3]] [[1, 2, 3], [2, 0], [0]] = Inr (3, 3, 1, 1, 1, 1)"
  using evaluate_heads_sentence_count [of "[[1, 2, 3]]" "[[1, 2, 3]]" "[[2, 0], [0]]"]
  by (simp add: evaluate_heads_def)

section \<open>Properties of is\_subsumed\<close>

lemma subsumed_loop_iff:
  "subsumed_loop items d \<longleftrightarrow>
     (\<forall>(k, v) \<in> set items. k \<noteq> ''Abbr'' \<longrightarrow> map_of d k = Some (read_value v))"
proof (induction items d rule: subsumed_loop.induct)
  case (1 second_descr)
  then show ?case by simp
next
  case (2 key val items second_descr)
  then show ?case by (simp add: read_value_def Let_def)
qed

lemma py_dict_distinct_aux:
  "distinct (map fst d) \<Longrightarrow> distinct (map fst (foldl (\<lambda>d (k, v). AList.update k v d) d fs))"
  by (induction fs arbitrary: d) (auto simp: distinct_update)

lemma py_dict_distinct: "distinct (map fst (py_dict fs))"
  unfolding py_dict_def by (rule py_dict_distinct_aux) simp

lemma takeWhile_no_sep: "sep \<notin> set s \<Longrightarrow> takeWhile (\<lambda>c. c \<noteq> sep) s = s"
  by (induction s) auto

lemma descr_to_feats_pos:
  "descr_to_feats tag rd = Inr (p, f) \<Longrightarrow> p = pos_part tag"
  by (auto simp: descr_to_feats_def split_first_def pos_part_def takeWhile_no_sep
      split: if_splits sum.splits)

lemma descr_to_feats_distinct:
  "descr_to_feats tag True = Inr (p, f) \<Longrightarrow> distinct (map fst f)"
  by (auto simp: descr_to_feats_def split_first_def py_dict_distinct
      split: if_splits sum.splits)

lemma feats_loop_pairs:
  "feats_loop elems acc =
     (if list_all (\<lambda>elem. CHR ''='' \<in> set elem) elems
      then Inr (acc @ concat (map elem_pairs elems)) else Inl ValueError)"
  by (induction elems arbitrary: acc) (auto simp: split_first_def elem_pairs_def)

lemma descr_to_feats_well_formed:
  "descr_to_feats tag True =
     (if well_formed_tag tag then Inr (pos_part tag, py_dict (field_pairs tag))
      else Inl ValueError)"
  by (auto simp: descr_to_feats_def well_formed_tag_def field_pairs_def feats_part_def
      pos_part_def split_first_def feats_loop_pairs takeWhile_no_sep py_dict_def)

lemma map_of_foldl_update:
  "map_of (foldl (\<lambda>d (k, v). AList.update k v d) d fs) = map_of d ++ map_of (rev fs)"
proof (induction fs arbitrary: d)
  case Nil
  then show ?case by simp
next
  case (Cons p fs)
  obtain a b where p: "p = (a, b)" by (cases p) auto
  show ?case
    by (simp add: Cons p update_conv' map_add_upd_left fun_eq_iff map_add_def split: option.splits)
qed

lemma map_of_py_dict: "map_of (py_dict fs) = map_of (rev fs)"
  by (simp add: py_dict_def map_of_foldl_update)

text \<open>
  Claim C8, as amended. When the feature part of either tag has an element without \<open>=\<close>,
  \<open>is_subsumed\<close> raises \<open>ValueError\<close>. Otherwise it returns \<open>True\<close> exactly when the POS parts
  of the two tags (the text before the first comma, or the whole tag) are equal and every
  entry of the first tag's feature dictionary (one value per key, the last one written) whose
  key is not \<open>Abbr\<close> has its key mapped by the second tag's feature dictionary to its value,
  read through the aliases \<open>Ptan\<close> to \<open>Plur\<close> and \<open>Brev\<close> to \<open>Short\<close>; it returns \<open>False\<close> in
  every other case.
\<close>

theorem is_subsumed_last_values:
  "(well_formed_tag first_tag \<and> well_formed_tag second_tag \<longrightarrow>
      is_subsumed first_tag second_tag =
        Inr (pos_part first_tag = pos_part second_tag \<and>
             (\<forall>key val. last_value first_tag key = Some val \<and> key \<noteq> ''Abbr'' \<longrightarrow>
                last_value second_tag key = Some (read_value val)))) \<and>
   (\<not> (well_formed_tag first_tag \<and> well_formed_tag second_tag) \<longrightarrow>
      is_subsumed first_tag second_tag = Inl ValueError)"
proof (intro conjI impI)
  assume wf: "well_formed_tag first_tag \<and> well_formed_tag second_tag"
  define d1 where "d1 = py_dict (field_pairs first_tag)"
  define d2 where "d2 = py_dict (field_pairs second_tag)"
  have p1: "descr_to_feats first_tag True = Inr (pos_part first_tag, d1)"
    and p2: "descr_to_feats second_tag True = Inr (pos_part second_tag, d2)"
    using wf by (simp_all add: descr_to_feats_well_formed d1_def d2_def)
  have m1: "map_of d1 = last_value first_tag" and m2: "map_of d2 = last_value second_tag"
    by (simp_all add: d1_def d2_def map_of_py_dict last_value_def fun_eq_iff)
  have dist: "distinct (map fst d1)" unfolding d1_def by (rule py_dict_distinct)
  have mem: "(k, v) \<in> set d1 \<longleftrightarrow> last_value first_tag k = Some v" for k v
    using dist m1 by (metis map_of_eq_Some_iff)
  have loop: "subsumed_loop d1 d2 \<longleftrightarrow>
      (\<forall>key val. last_value first_tag key = Some val \<and> key \<noteq> ''Abbr'' \<longrightarrow>
         last_value second_tag key = Some (read_value val))"
  proof
    assume "subsumed_loop d1 d2"
    then have all: "\<forall>(k, v)\<in>set d1. k \<noteq> ''Abbr'' \<longrightarrow> last_value second_tag k = Some (read_value v)"
      unfolding subsumed_loop_iff m2 .
    show "\<forall>key val. last_value first_tag key = Some val \<and> key \<noteq> ''Abbr'' \<longrightarrow>
         last_value second_tag key = Some (read_value val)"
    proof (intro allI impI)
      fix key val assume h: "last_value first_tag key = Some val \<and> key \<noteq> ''Abbr''"
      then have "(key, val) \<in> set d1" using mem by blast
      with all h show "last_value second_tag key = Some (read_value val)" by fastforce
    qed
  next
    assume "\<forall>key val. last_value first_tag key = Some val \<and> key \<noteq> ''Abbr'' \<longrightarrow>
         last_value second_tag key = Some (read_value val)"
    then show "subsumed_loop d1 d2" unfolding subsumed_loop_iff m2 using mem by auto
  qed
  show "is_subsumed first_tag second_tag =
        Inr (pos_part first_tag = pos_part second_tag \<and>
             (\<forall>key val. last_value first_tag key = Some val \<and> key \<noteq> ''Abbr'' \<longrightarrow>
                last_value second_tag key = Some (read_value val)))"
    using loop by (simp add: is_subsumed_def p1 p2)
next
  assume "\<not> (well_formed_tag first_tag \<and> well_formed_tag second_tag)"
  then show "is_subsumed first_tag second_tag = Inl ValueError"
    by (auto simp: is_subsumed_def descr_to_feats_well_formed)
qed


text \<open>
  Claim C9, as amended. \<open>is_subsumed\<close> is not reflexive: for every tag that parses and whose
  feature dictionary maps some key other than \<open>Abbr\<close> to \<open>Ptan\<close> or \<open>Brev\<close>,
  \<open>is_subsumed(t, t)\<close> returns \<open>False\<close>; the alias is applied to the value of the first
  argument only and the second argument's dictionary still holds the value as written.
\<close>

theorem is_subsumed_alias_not_reflexive:
  "descr_to_feats tag True = Inr (pos, descr) \<Longrightarrow> (key, val) \<in> set descr \<Longrightarrow>
     key \<noteq> ''Abbr'' \<Longrightarrow> val = ''Ptan'' \<or> val = ''Brev'' \<Longrightarrow>
     is_subsumed tag tag = Inr False"
proof -
  assume parse: "descr_to_feats tag True = Inr (pos, descr)"
    and mem: "(key, val) \<in> set descr" and key: "key \<noteq> ''Abbr''"
    and val: "val = ''Ptan'' \<or> val = ''Brev''"
  have "distinct (map fst descr)" using parse by (rule descr_to_feats_distinct)
  then have "map_of descr key = Some val" using mem by simp
  moreover have "read_value val \<noteq> val" using val by (auto simp: read_value_def)
  ultimately have "\<not> subsumed_loop descr descr"
    unfolding subsumed_loop_iff using mem key by (intro notI) (drule bspec, assumption, simp)
  then show ?thesis using parse by (simp add: is_subsumed_def)
qed


lemma parse_noun_ptan_abbr:
  "descr_to_feats ''NOUN,Number=Ptan|Abbr=Yes'' True =
     Inr (''NOUN'', [(''Number'', ''Ptan''), (''Abbr'', ''Yes'')])"
  by (simp add: descr_to_feats_def split_first_def split_on_def py_dict_def)

lemma parse_noun_case_plur:
  "descr_to_feats ''NOUN,Case=Nom|Number=Plur'' True =
     Inr (''NOUN'', [(''Case'', ''Nom''), (''Number'', ''Plur'')])"
  by (simp add: descr_to_feats_def split_first_def split_on_def py_dict_def)

lemma parse_noun_ptan:
  "descr_to_feats ''NOUN,Number=Ptan'' True = Inr (''NOUN'', [(''Number'', ''Ptan'')])"
  by (simp add: descr_to_feats_def split_first_def split_on_def py_dict_def)

text \<open>
  The claim as stated, over the key-value pairs the tags write and for every pair of tags,
  fails: the first tag below writes the pair \<open>(K, a)\<close>, which the second does not, and is
  subsumed all the same, since its dictionary keeps \<open>b\<close> only; \<open>N,K=a\<close> is not subsumed by
  \<open>N,K=a,b\<close>, which writes its only pair; and for \<open>N\<close>, without any pair to find, and
  \<open>N,x\<close>, with the same POS part, \<open>is_subsumed\<close> does not return but raises.
\<close>

theorem is_subsumed_pairs_counterexample:
  "descr_to_feats ''N,K=a,b'' False = Inr (''N'', [(''K'', ''a''), (''K'', ''b'')]) \<and>
   descr_to_feats ''N,K=b'' False = Inr (''N'', [(''K'', ''b'')]) \<and>
   is_subsumed ''N,K=a,b'' ''N,K=b'' = Inr True \<and>
   is_subsumed ''N,K=b'' ''N,K=a,b'' = Inr True \<and>
   is_subsumed ''N,K=a'' ''N,K=a,b'' = Inr False \<and>
   descr_to_feats ''N'' False = Inr (''N'', []) \<and>
   pos_part ''N'' = pos_part ''N,x'' \<and>
   is_subsumed ''N'' ''N,x'' = Inl ValueError"
  by (simp add: is_subsumed_def descr_to_feats_def split_first_def split_on_def py_dict_def
      pos_part_def)

lemma well_formed_examples:
  "well_formed_tag ''NOUN,Number=Ptan|Abbr=Yes''"
  "well_formed_tag ''NOUN,Case=Nom|Number=Plur''"
  "well_formed_tag ''N''"
  "\<not> well_formed_tag ''N,x''"
  by (simp_all add: well_formed_tag_def feats_part_def split_on_def)

theorem is_subsumed_last_values_witness:
  "well_formed_tag ''NOUN,Number=Ptan|Abbr=Yes'' \<and>
   well_formed_tag ''NOUN,Case=Nom|Number=Plur'' \<and>
   is_subsumed ''NOUN,Number=Ptan|Abbr=Yes'' ''NOUN,Case=Nom|Number=Plur'' = Inr True \<and>
   last_value ''NOUN,Number=Ptan|Abbr=Yes'' ''Number'' = Some ''Ptan'' \<and>
   last_value ''NOUN,Case=Nom|Number=Plur'' ''Number'' = Some ''Plur'' \<and>
   \<not> well_formed_tag ''N,x'' \<and>
   is_subsumed ''N'' ''N,x'' = Inl ValueError"
proof -
  have bad: "is_subsumed ''N'' ''N,x'' = Inl ValueError"
    using is_subsumed_last_values[of "''N''" "''N,x''"] well_formed_examples(4) by blast
  have good: "is_subsumed ''NOUN,Number=Ptan|Abbr=Yes'' ''NOUN,Case=Nom|Number=Plur'' = Inr True"
    by (simp add: is_subsumed_def parse_noun_ptan_abbr parse_noun_case_plur)
  have "is_subsumed ''NOUN,Number=Ptan|Abbr=Yes'' ''NOUN,Case=Nom|Number=Plur'' =
        Inr (pos_part ''NOUN,Number=Ptan|Abbr=Yes'' = pos_part ''NOUN,Case=Nom|Number=Plur'' \<and>
             (\<forall>key val. last_value ''NOUN,Number=Ptan|Abbr=Yes'' key = Some val \<and>
                 key \<noteq> ''Abbr'' \<longrightarrow>
                last_value ''NOUN,Case=Nom|Number=Plur'' key = Some (read_value val)))"
    using is_subsumed_last_values[of "''NOUN,Number=Ptan|Abbr=Yes''"
        "''NOUN,Case=Nom|Number=Plur''"] well_formed_examples(1,2) by blast
  then have all: "\<forall>key val. last_value ''NOUN,Number=Ptan|Abbr=Yes'' key = Some val \<and>
                 key \<noteq> ''Abbr'' \<longrightarrow>
                last_value ''NOUN,Case=Nom|Number=Plur'' key = Some (read_value val)"
    using good by simp
  have l1: "last_value ''NOUN,Number=Ptan|Abbr=Yes'' ''Number'' = Some ''Ptan''"
    by (simp add: last_value_def field_pairs_def feats_part_def split_on_def elem_pairs_def)
  from all l1 have "last_value ''NOUN,Case=Nom|Number=Plur'' ''Number'' = Some (read_value ''Ptan'')"
    by blast
  then have l2: "last_value ''NOUN,Case=Nom|Number=Plur'' ''Number'' = Some ''Plur''"
    by (simp add: read_value_def)
  show ?thesis using well_formed_examples bad good l1 l2 by blast
qed

theorem is_subsumed_alias_not_reflexive_witness:
  "descr_to_feats ''NOUN,Number=Ptan'' True = Inr (''NOUN'', [(''Number'', ''Ptan'')]) \<and>
   is_subsumed ''NOUN,Number=Ptan'' ''NOUN,Number=Ptan'' = Inr False"
proof -
  have "is_subsumed ''NOUN,Number=Ptan'' ''NOUN,Number=Ptan'' = Inr False"
    by (rule is_subsumed_alias_not_reflexive [OF parse_noun_ptan, of "''Number''" "''Ptan''"])
      simp_all
  then show ?thesis using parse_noun_ptan by blast
qed

text \<open>
  The claim as stated, for any tag containing a feature with value \<open>Ptan\<close>, fails where the
  key is \<open>Abbr\<close> (the loop skips it) and where a later value of the same key replaces
  \<open>Ptan\<close> in the dictionary: both tags below contain the value and are subsumed by
  themselves.
\<close>

theorem is_subsumed_alias_reflexive_counterexample:
  "descr_to_feats ''NOUN,Abbr=Ptan'' False = Inr (''NOUN'', [(''Abbr'', ''Ptan'')]) \<and>
   is_subsumed ''NOUN,Abbr=Ptan'' ''NOUN,Abbr=Ptan'' = Inr True \<and>
   descr_to_feats ''NOUN,Number=Ptan,Sing'' False =
     Inr (''NOUN'', [(''Number'', ''Ptan''), (''Number'', ''Sing'')]) \<and>
   is_subsumed ''NOUN,Number=Ptan,Sing'' ''NOUN,Number=Ptan,Sing'' = Inr True"
  by (simp add: is_subsumed_def descr_to_feats_def split_first_def split_on_def py_dict_def)

section \<open>The decoder returns a tree\<close>

lemma argmax_from_mem: "argmax_from f b xs \<in> set (b # xs)"
  by (induction xs arbitrary: b) auto

lemma greedy_head_range: "greedy_head nodes score v \<in> insert 0 (set nodes)"
  using argmax_from_mem[of "score v" 0 "filter (\<lambda>h. h \<noteq> v) nodes"]
  by (auto simp: greedy_head_def)

lemma greedy_head_not_self: "v \<noteq> 0 \<Longrightarrow> greedy_head nodes score v \<noteq> v"
  using argmax_from_mem[of "score v" 0 "filter (\<lambda>h. h \<noteq> v) nodes"]
  by (auto simp: greedy_head_def)

lemma enter_node_mem: "cyc \<noteq> [] \<Longrightarrow> enter_node score g cyc h \<in> set cyc"
  using argmax_from_mem[of "\<lambda>x. score x h - score x (g x)" "hd cyc" "tl cyc"]
  by (cases cyc) (auto simp: enter_node_def)

lemma into_node_mem: "cyc \<noteq> [] \<Longrightarrow> into_node score cyc d \<in> set cyc"
  using argmax_from_mem[of "score d" "hd cyc" "tl cyc"]
  by (cases cyc) (auto simp: into_node_def)

lemma iterates_stay:
  assumes closed: "\<forall>v\<in>S. g v \<in> insert 0 S" and v: "v \<in> S"
    and never: "\<forall>k. (g ^^ k) v \<noteq> (0::nat)"
  shows "(g ^^ k) v \<in> S"
proof (induction k)
  case 0
  then show ?case using v by simp
next
  case (Suc k)
  then have "g ((g ^^ k) v) \<in> insert 0 S" using closed by blast
  moreover have "(g ^^ Suc k) v \<noteq> 0" using never by blast
  ultimately show ?case by simp
qed

lemma repeated_iterate:
  assumes fin: "finite S" and all: "\<forall>k. f k \<in> S"
  shows "\<exists>i j. i < j \<and> j \<le> card S \<and> f i = f (j::nat)"
proof -
  have "f ` {0..card S} \<subseteq> S" using all by auto
  then have "card (f ` {0..card S}) \<le> card S" using fin by (simp add: card_mono)
  then have "card (f ` {0..card S}) < card {0..card S}" by simp
  then have "\<not> inj_on f {0..card S}" using pigeonhole by blast
  then obtain x y where xy: "x \<in> {0..card S}" "y \<in> {0..card S}" "x \<noteq> y" "f x = f y"
    unfolding inj_on_def by blast
  show ?thesis
  proof (cases "x < y")
    case True
    then show ?thesis using xy by auto
  next
    case False
    then have "y < x" using xy by simp
    then show ?thesis using xy by (metis atLeastAtMost_iff)
  qed
qed

lemma walk_succeeds:
  "(g ^^ Suc k) cur = start \<Longrightarrow> k \<le> fuel \<Longrightarrow>
     (\<forall>i. 1 \<le> i \<and> i \<le> k \<longrightarrow> (g ^^ i) cur \<in> set nodes) \<Longrightarrow>
     walk g nodes start cur fuel \<noteq> None"
proof (induction k arbitrary: cur fuel)
  case 0
  then show ?case by (cases fuel) auto
next
  case (Suc k)
  then obtain fuel' where fuel: "fuel = Suc fuel'" by (cases fuel) auto
  show ?case
  proof (cases "g cur = start")
    case True
    then show ?thesis by (simp add: fuel)
  next
    case False
    have mem: "g cur \<in> set nodes" using Suc.prems(3)[rule_format, of 1] by simp
    have ret: "(g ^^ Suc k) (g cur) = start"
      using Suc.prems(1) by (simp only: funpow_Suc_right o_apply)
    have inside: "\<forall>i. 1 \<le> i \<and> i \<le> k \<longrightarrow> (g ^^ i) (g cur) \<in> set nodes"
    proof (intro allI impI)
      fix i assume "1 \<le> i \<and> i \<le> k"
      then have "(g ^^ Suc i) cur \<in> set nodes"
        using Suc.prems(3)[rule_format, of "Suc i"] by simp
      then show "(g ^^ i) (g cur) \<in> set nodes" by (simp only: funpow_Suc_right o_apply)
    qed
    have "walk g nodes start (g cur) fuel' \<noteq> None"
      using Suc.IH[OF ret _ inside] Suc.prems(2) fuel by simp
    then show ?thesis using False mem fuel by auto
  qed
qed

lemma find_cycle_None: "find_cycle g nodes vs = None \<Longrightarrow> v \<in> set vs \<Longrightarrow> cycle_at g nodes v = None"
  by (induction vs) (auto split: option.splits)

lemma find_cycle_Some:
  "find_cycle g nodes vs = Some cyc \<Longrightarrow> \<exists>v\<in>set vs. cycle_at g nodes v = Some cyc"
  by (induction vs) (auto split: option.splits)

lemma no_cycle_reaches_root:
  assumes none: "find_cycle g nodes nodes = None"
    and closed: "\<forall>v\<in>set nodes. g v \<in> insert 0 (set nodes)"
    and noself: "\<forall>v\<in>set nodes. g v \<noteq> v"
    and v: "v \<in> set nodes"
  shows "\<exists>k. (g ^^ k) v = 0"
proof (rule ccontr)
  assume "\<not> (\<exists>k. (g ^^ k) v = 0)"
  then have never: "\<forall>k. (g ^^ k) v \<noteq> 0" by simp
  have stay: "(g ^^ k) v \<in> set nodes" for k
    using iterates_stay[OF closed v never] .
  then have "\<forall>k. (g ^^ k) v \<in> set nodes" by simp
  from repeated_iterate[OF _ this] obtain i j
    where ij: "i < j" "j \<le> card (set nodes)" "(g ^^ i) v = (g ^^ j) v" by auto
  define u where "u = (g ^^ i) v"
  define p where "p = j - i - 1"
  have u: "u \<in> set nodes" unfolding u_def by (rule stay)
  have "j = Suc p + i" using ij(1) unfolding p_def by simp
  then have "(g ^^ j) v = (g ^^ (Suc p)) ((g ^^ i) v)"
    by (simp only: funpow_add o_apply)
  then have ret: "(g ^^ Suc p) u = u" using ij(3) u_def by simp
  have p: "p \<le> length nodes"
    using ij(2) card_length[of nodes] unfolding p_def by simp
  have inside: "\<forall>k. 1 \<le> k \<and> k \<le> p \<longrightarrow> (g ^^ k) u \<in> set nodes"
  proof (intro allI impI)
    fix k
    have "(g ^^ k) u = (g ^^ (k + i)) v" unfolding u_def by (simp add: funpow_add)
    then show "(g ^^ k) u \<in> set nodes" using stay by simp
  qed
  have "walk g nodes u u (length nodes) \<noteq> None"
    by (rule walk_succeeds[OF ret p inside])
  moreover have "g u \<noteq> u" using noself u by blast
  ultimately have "cycle_at g nodes u \<noteq> None" by (simp add: cycle_at_def)
  then show False using find_cycle_None[OF none u] by simp
qed


lemma walk_cycle:
  "walk g nodes start cur fuel = Some cyc \<Longrightarrow>
     start \<notin> set (tl cyc) \<and>
     (\<forall>x\<in>set cyc. g x \<in> insert start (set cyc)) \<and>
     (\<forall>x\<in>set cyc. \<exists>j. (g ^^ j) x = start) \<and>
     (\<forall>x\<in>set cyc. \<exists>j. (g ^^ j) cur = x)"
proof (induction fuel arbitrary: cur cyc)
  case 0
  then have cyc: "cyc = [cur]" and g: "g cur = start" by (auto split: if_splits)
  have "(g ^^ 1) cur = start" using g by simp
  moreover have "(g ^^ 0) cur = cur" by simp
  ultimately show ?case unfolding cyc using g by (metis empty_iff empty_set insertI1 list.sel(3) list.set(2) singletonD)
next
  case (Suc fuel)
  show ?case
  proof (cases "g cur = start")
    case True
    then have cyc: "cyc = [cur]" using Suc.prems by simp
    have "(g ^^ 1) cur = start" using True by simp
    moreover have "(g ^^ 0) cur = cur" by simp
    ultimately show ?thesis unfolding cyc using True
      by (metis empty_iff empty_set insertI1 list.sel(3) list.set(2) singletonD)
  next
    case False
    with Suc.prems obtain rest where
      rest: "walk g nodes start (g cur) fuel = Some rest" and cyc: "cyc = cur # rest"
      by (auto split: if_splits)
    from walk_shape[OF rest] have hd: "rest \<noteq> []" "hd rest = g cur" by auto
    from Suc.IH[OF rest] have ih1: "start \<notin> set (tl rest)"
      and ih2: "\<forall>x\<in>set rest. g x \<in> insert start (set rest)"
      and ih3: "\<forall>x\<in>set rest. \<exists>j. (g ^^ j) x = start"
      and ih4: "\<forall>x\<in>set rest. \<exists>j. (g ^^ j) (g cur) = x"
      by auto
    have gcur: "g cur \<in> set rest" using hd by (cases rest) auto
    have c1: "start \<notin> set (tl cyc)"
      using ih1 hd False unfolding cyc by (cases rest) auto
    have c2: "\<forall>x\<in>set cyc. g x \<in> insert start (set cyc)"
      using ih2 gcur unfolding cyc by auto
    have c3: "\<forall>x\<in>set cyc. \<exists>j. (g ^^ j) x = start"
    proof
      fix x assume "x \<in> set cyc"
      then consider "x = cur" | "x \<in> set rest" unfolding cyc by auto
      then show "\<exists>j. (g ^^ j) x = start"
      proof cases
        case 1
        from ih3 gcur obtain j where "(g ^^ j) (g cur) = start" by blast
        then have "(g ^^ Suc j) cur = start" by (simp only: funpow_Suc_right o_apply)
        then show ?thesis using 1 by blast
      next
        case 2
        then show ?thesis using ih3 by blast
      qed
    qed
    have c4: "\<forall>x\<in>set cyc. \<exists>j. (g ^^ j) cur = x"
    proof
      fix x assume "x \<in> set cyc"
      then consider "x = cur" | "x \<in> set rest" unfolding cyc by auto
      then show "\<exists>j. (g ^^ j) cur = x"
      proof cases
        case 1
        have "(g ^^ 0) cur = cur" by simp
        then show ?thesis using 1 by blast
      next
        case 2
        from ih4 2 obtain j where "(g ^^ j) (g cur) = x" by blast
        then have "(g ^^ Suc j) cur = x" by (simp only: funpow_Suc_right o_apply)
        then show ?thesis by blast
      qed
    qed
    show ?thesis using c1 c2 c3 c4 by blast
  qed
qed

lemma cycle_at_facts:
  assumes cyc: "cycle_at g nodes v = Some cyc" and v: "v \<in> set nodes"
  shows "cyc \<noteq> []" and "set cyc \<subseteq> set nodes" and "hd cyc \<notin> set (tl cyc)"
    and "\<forall>x\<in>set cyc. g x \<in> set cyc"
    and "\<forall>x\<in>set cyc. \<forall>y\<in>set cyc. \<exists>j. (g ^^ j) x = y"
proof -
  from cyc have w: "walk g nodes v v (length nodes) = Some cyc"
    by (auto simp: cycle_at_def split: if_splits)
  from walk_shape[OF w] have ne: "cyc \<noteq> []" and hd: "hd cyc = v"
    and tl: "set (tl cyc) \<subseteq> set nodes" by auto
  from walk_cycle[OF w] have c1: "v \<notin> set (tl cyc)"
    and c2: "\<forall>x\<in>set cyc. g x \<in> insert v (set cyc)"
    and c3: "\<forall>x\<in>set cyc. \<exists>j. (g ^^ j) x = v"
    and c4: "\<forall>x\<in>set cyc. \<exists>j. (g ^^ j) v = x" by auto
  have vin: "v \<in> set cyc" using ne hd by (cases cyc) auto
  show "cyc \<noteq> []" by (rule ne)
  show "set cyc \<subseteq> set nodes" using ne hd tl v by (cases cyc) auto
  show "hd cyc \<notin> set (tl cyc)" using c1 hd by simp
  show "\<forall>x\<in>set cyc. g x \<in> set cyc" using c2 vin by auto
  show "\<forall>x\<in>set cyc. \<forall>y\<in>set cyc. \<exists>j. (g ^^ j) x = y"
  proof (intro ballI)
    fix x y assume "x \<in> set cyc" "y \<in> set cyc"
    then obtain j1 j2 where "(g ^^ j1) x = v" "(g ^^ j2) v = y" using c3 c4 by blast
    then have "(g ^^ (j2 + j1)) x = y" by (simp only: funpow_add o_apply)
    then show "\<exists>j. (g ^^ j) x = y" by blast
  qed
qed


lemma reach_step: "\<exists>k. (h ^^ k) (h v) = (0::nat) \<Longrightarrow> \<exists>k. (h ^^ k) v = 0"
proof -
  assume "\<exists>k. (h ^^ k) (h v) = 0"
  then obtain k where "(h ^^ k) (h v) = 0" by blast
  then have "(h ^^ Suc k) v = 0" by (simp only: funpow_Suc_right o_apply)
  then show ?thesis by blast
qed

lemma expand_tree:
  fixes S :: "nat set"
  assumes root: "0 \<notin> S" and ne: "cyc \<noteq> []" and sub: "set cyc \<subseteq> S"
    and hd: "hd cyc \<notin> set (tl cyc)"
    and closed: "\<forall>x\<in>set cyc. g x \<in> set cyc"
    and noself: "\<forall>x\<in>set cyc. g x \<noteq> x"
    and conn: "\<forall>x\<in>set cyc. \<forall>y\<in>set cyc. \<exists>j. (g ^^ j) x = y"
    and tree: "\<forall>v\<in>S - set (tl cyc).
        h' v \<in> insert 0 (S - set (tl cyc)) \<and> h' v \<noteq> v \<and> (\<exists>k. (h' ^^ k) v = 0)"
    and v: "v \<in> S"
  shows "expand score g cyc h' v \<in> insert 0 S \<and> expand score g cyc h' v \<noteq> v \<and>
         (\<exists>k. ((expand score g cyc h') ^^ k) v = 0)"
proof -
  define h where "h = expand score g cyc h'"
  define c where "c = hd cyc"
  define e where "e = enter_node score g cyc (h' c)"
  define S' where "S' = S - set (tl cyc)"
  have cyc_set: "set cyc = insert c (set (tl cyc))" using ne unfolding c_def by (cases cyc) auto
  have c_cyc: "c \<in> set cyc" using cyc_set by simp
  have c_S': "c \<in> S'" using c_cyc sub hd unfolding S'_def c_def by auto
  have e_cyc: "e \<in> set cyc" unfolding e_def by (rule enter_node_mem[OF ne])
  have into: "into_node score cyc d \<in> set cyc" for d by (rule into_node_mem[OF ne])
  have tree': "h' u \<in> insert 0 S'" "h' u \<noteq> u" "\<exists>k. (h' ^^ k) u = 0" if "u \<in> S'" for u
    using tree that unfolding S'_def by auto
  have out: "u \<notin> set cyc" if "u \<in> insert 0 S'" "u \<noteq> c" for u
    using that root sub cyc_set unfolding S'_def by auto
  have hc_out: "h' c \<notin> set cyc" using out[of "h' c"] tree'(1,2)[OF c_S'] by simp
  have h_e: "h e = h' c" unfolding h_def expand_def using e_cyc e_def c_def by simp
  have h_cyc: "h x = g x" if "x \<in> set cyc" "x \<noteq> e" for x
    unfolding h_def expand_def using that e_def c_def by simp
  have h_into: "h u = into_node score cyc u" if "u \<notin> set cyc" "h' u = c" for u
    unfolding h_def expand_def using that c_def by simp
  have h_out: "h u = h' u" if "u \<notin> set cyc" "h' u \<noteq> c" for u
    unfolding h_def expand_def using that c_def by simp
  have range: "h u \<in> insert 0 S \<and> h u \<noteq> u" if u: "u \<in> S" for u
  proof (cases "u \<in> set cyc")
    case True
    show ?thesis
    proof (cases "u = e")
      case True
      have "h' c \<in> insert 0 S" using tree'(1)[OF c_S'] unfolding S'_def by auto
      then show ?thesis using h_e True hc_out e_cyc by auto
    next
      case False
      then show ?thesis using h_cyc[OF True False] closed noself sub True by auto
    qed
  next
    case False
    then have u': "u \<in> S'" using u cyc_set unfolding S'_def by auto
    show ?thesis
    proof (cases "h' u = c")
      case True
      then show ?thesis using h_into[OF False True] into[of u] sub False by auto
    next
      case False2: False
      have "h' u \<in> insert 0 S" using tree'(1)[OF u'] unfolding S'_def by auto
      then show ?thesis using h_out[OF False False2] tree'(2)[OF u'] by simp
    qed
  qed
  have around: "\<forall>x\<in>set cyc. (g ^^ j) x = e \<longrightarrow> (\<exists>k. (h ^^ k) x = 0)"
    if he: "\<exists>k. (h ^^ k) (h' c) = 0" for j
  proof (induction j)
    case 0
    have "\<exists>k. (h ^^ k) e = 0" using reach_step[of h e] he h_e by simp
    then show ?case by simp
  next
    case (Suc j)
    show ?case
    proof (intro ballI impI)
      fix x assume x: "x \<in> set cyc" and ret: "(g ^^ Suc j) x = e"
      show "\<exists>k. (h ^^ k) x = 0"
      proof (cases "x = e")
        case True
        then show ?thesis using reach_step[of h e] he h_e by simp
      next
        case False
        have "(g ^^ j) (g x) = e" using ret by (simp only: funpow_Suc_right o_apply)
        moreover have "g x \<in> set cyc" using closed x by blast
        ultimately have "\<exists>k. (h ^^ k) (g x) = 0" using Suc.IH by blast
        then show ?thesis using reach_step[of h x] h_cyc[OF x False] by simp
      qed
    qed
  qed
  have whole: "\<forall>x\<in>set cyc. \<exists>k. (h ^^ k) x = 0" if he: "\<exists>k. (h ^^ k) (h' c) = 0"
    using around[OF he] conn e_cyc by blast
  have lift: "\<forall>u\<in>insert 0 S'. (h' ^^ k) u = 0 \<longrightarrow>
      (if u = c then \<forall>x\<in>set cyc. \<exists>k. (h ^^ k) x = 0 else \<exists>k. (h ^^ k) u = 0)" for k
  proof (induction k)
    case 0
    have "(h ^^ 0) (0::nat) = 0" by simp
    then have "\<exists>k. (h ^^ k) (0::nat) = 0" by blast
    moreover have "c \<noteq> 0" using c_S' root unfolding S'_def by (metis DiffD1)
    ultimately show ?case by auto
  next
    case (Suc k)
    show ?case
    proof (intro ballI impI)
      fix u assume u: "u \<in> insert 0 S'" and hit: "(h' ^^ Suc k) u = 0"
      show "if u = c then \<forall>x\<in>set cyc. \<exists>k. (h ^^ k) x = 0 else \<exists>k. (h ^^ k) u = 0"
      proof (cases "u = 0")
        case True
        have "(h ^^ 0) (0::nat) = 0" by simp
        then have "\<exists>k. (h ^^ k) (0::nat) = 0" by blast
        moreover have "c \<noteq> 0" using c_S' root unfolding S'_def by (metis DiffD1)
        ultimately show ?thesis using True by auto
      next
        case False
        then have u': "u \<in> S'" using u by simp
        have next_in: "h' u \<in> insert 0 S'" using tree'(1)[OF u'] .
        have "(h' ^^ k) (h' u) = 0" using hit by (simp only: funpow_Suc_right o_apply)
        with Suc.IH next_in
        have ih: "if h' u = c then \<forall>x\<in>set cyc. \<exists>k. (h ^^ k) x = 0
                  else \<exists>k. (h ^^ k) (h' u) = 0" by blast
        show ?thesis
        proof (cases "u = c")
          case True
          have "h' c \<noteq> c" using tree'(2)[OF c_S'] .
          then have "\<exists>k. (h ^^ k) (h' c) = 0" using ih True by simp
          then show ?thesis using whole True by simp
        next
          case False
          then have ucyc: "u \<notin> set cyc" using out[of u] u by simp
          show ?thesis
          proof (cases "h' u = c")
            case True
            then have "\<exists>k. (h ^^ k) (into_node score cyc u) = 0" using ih into[of u] by simp
            then show ?thesis using reach_step[of h u] h_into[OF ucyc True] False by simp
          next
            case hu: False
            then have "\<exists>k. (h ^^ k) (h' u) = 0" using ih by simp
            then show ?thesis using reach_step[of h u] h_out[OF ucyc hu] False by simp
          qed
        qed
      qed
    qed
  qed
  have reach: "\<exists>k. (h ^^ k) u = 0" if u: "u \<in> S" for u
  proof (cases "u \<in> set cyc")
    case True
    obtain k where "(h' ^^ k) c = 0" using tree'(3)[OF c_S'] by blast
    then have "\<forall>x\<in>set cyc. \<exists>k. (h ^^ k) x = 0" using lift[of k] c_S' by auto
    then show ?thesis using True by blast
  next
    case False
    then have u': "u \<in> S'" using u cyc_set unfolding S'_def by auto
    have "u \<noteq> c" using False c_cyc by auto
    obtain k where "(h' ^^ k) u = 0" using tree'(3)[OF u'] by blast
    then show ?thesis using lift[of k] u' \<open>u \<noteq> c\<close> by auto
  qed
  show ?thesis using range[OF v] reach[OF v] unfolding h_def by simp
qed


lemma set_remaining: "set (remaining nodes cyc) = set nodes - set (tl cyc)"
  by (auto simp: remaining_def)

lemma contract_loop_tree:
  "0 \<notin> set nodes \<Longrightarrow> v \<in> set nodes \<Longrightarrow>
     contract_loop nodes score v \<in> insert 0 (set nodes) \<and>
     contract_loop nodes score v \<noteq> v \<and>
     (\<exists>k. ((contract_loop nodes score) ^^ k) v = 0)"
proof (induction nodes score arbitrary: v rule: contract_loop.induct)
  case (1 nodes score)
  define g where "g = greedy_head nodes score"
  have closed: "\<forall>u\<in>set nodes. g u \<in> insert 0 (set nodes)"
    unfolding g_def using greedy_head_range by blast
  have noself: "\<forall>u\<in>set nodes. g u \<noteq> u"
    unfolding g_def using greedy_head_not_self "1.prems"(1) by metis
  show ?case
  proof (cases "find_cycle g nodes nodes")
    case None
    then have eq: "contract_loop nodes score = g"
      by (simp add: contract_loop.simps[of nodes score] g_def)
    show ?thesis unfolding eq
      using closed noself no_cycle_reaches_root[OF None closed noself] "1.prems"(2) by blast
  next
    case (Some cyc)
    define h' where "h' = contract_loop (remaining nodes cyc) (contracted_score score g cyc)"
    have eq: "contract_loop nodes score = expand score g cyc h'"
      using Some by (simp add: contract_loop.simps[of nodes score] g_def h'_def)
    from find_cycle_Some[OF Some] obtain u where u: "u \<in> set nodes"
      and at: "cycle_at g nodes u = Some cyc" by blast
    note facts = cycle_at_facts[OF at u]
    have root': "0 \<notin> set (remaining nodes cyc)" using "1.prems"(1) by (simp add: set_remaining)
    have tree: "\<forall>w\<in>set nodes - set (tl cyc).
        h' w \<in> insert 0 (set nodes - set (tl cyc)) \<and> h' w \<noteq> w \<and> (\<exists>k. (h' ^^ k) w = 0)"
    proof
      fix w assume "w \<in> set nodes - set (tl cyc)"
      then have "w \<in> set (remaining nodes cyc)" by (simp add: set_remaining)
      from "1.IH"[OF Some[unfolded g_def] root' this]
      show "h' w \<in> insert 0 (set nodes - set (tl cyc)) \<and> h' w \<noteq> w \<and> (\<exists>k. (h' ^^ k) w = 0)"
        unfolding h'_def g_def set_remaining .
    qed
    have noself': "\<forall>x\<in>set cyc. g x \<noteq> x" using noself facts(2) by blast
    show ?thesis unfolding eq
      by (rule expand_tree[OF "1.prems"(1) facts(1) facts(2) facts(3) facts(4) noself' facts(5)
            tree "1.prems"(2)])
  qed
qed

lemma follow_heads:
  assumes closed: "\<forall>v\<in>S. h v \<in> insert 0 S" and agree: "\<forall>v\<in>S. f v = h v" and f0: "f 0 = (0::nat)"
  shows "d \<in> insert 0 S \<Longrightarrow> (h ^^ k) d = 0 \<Longrightarrow> (f ^^ k) d = 0"
proof (induction k arbitrary: d)
  case 0
  then show ?case by simp
next
  case (Suc k)
  show ?case
  proof (cases "d = 0")
    case True
    have fix0: "(f ^^ n) 0 = 0" for n by (induction n) (simp_all add: f0)
    show ?thesis unfolding True by (rule fix0)
  next
    case False
    then have d: "d \<in> S" using Suc.prems(1) by simp
    have "(h ^^ k) (h d) = 0" using Suc.prems(2) by (simp only: funpow_Suc_right o_apply)
    moreover have "h d \<in> insert 0 S" using closed d by blast
    ultimately have "(f ^^ k) (h d) = 0" using Suc.IH by blast
    then have "(f ^^ k) (f d) = 0" using agree d by simp
    then show ?thesis by (simp only: funpow_Suc_right o_apply)
  qed
qed

text \<open>
  Claim C1. For every score matrix of valid shape (square, at least 2x2) the decoder
  returns, and the head sequence \<open>predict_heads\<close> keeps (the result without its root entry)
  is a tree: it has exactly one entry, hence one head, for each of the \<open>length m - 1\<close>
  non-root nodes, no node is its own head, every head is a node of the sentence, and
  following the heads from any node reaches the root 0 after finitely many steps.
\<close>

theorem chu_liu_edmonds_tree:
  "valid_shape m \<Longrightarrow>
     \<exists>hs. chu_liu_edmonds m = Inr hs \<and> length (drop 1 hs) = length m - 1 \<and>
          is_tree (drop 1 hs)"
proof -
  assume shape: "valid_shape m"
  define n where "n = length m"
  define h where "h = contract_loop [1..<n] (\<lambda>d h. m ! d ! h)"
  define heads where "heads = map h [1..<n]"
  have n: "2 \<le> n" using shape unfolding valid_shape_def n_def by simp
  have res: "chu_liu_edmonds m = Inr (0 # heads)"
    using shape unfolding chu_liu_edmonds_def heads_def h_def n_def by simp
  have len: "length heads = n - 1" unfolding heads_def by simp
  have tree: "h v \<in> insert 0 (set [1..<n]) \<and> h v \<noteq> v \<and> (\<exists>k. (h ^^ k) v = 0)"
    if "v \<in> set [1..<n]" for v
    unfolding h_def by (rule contract_loop_tree[OF _ that]) simp
  have agree: "\<forall>v\<in>set [1..<n]. head_of heads v = h v"
    unfolding head_of_def heads_def by (auto simp: nth_map_upt)
  have closed: "\<forall>v\<in>set [1..<n]. h v \<in> insert 0 (set [1..<n])" using tree by blast
  have "is_tree heads"
    unfolding is_tree_def
  proof (intro ballI conjI)
    fix d assume "d \<in> {1..length heads}"
    then have d: "d \<in> set [1..<n]" using len by auto
    from tree[OF d] have hd: "h d \<in> insert 0 (set [1..<n])" and ne: "h d \<noteq> d"
      and reach: "\<exists>k. (h ^^ k) d = 0" by auto
    have eq: "head_of heads d = h d" using agree d by blast
    show "head_of heads d \<le> length heads" using hd len unfolding eq by auto
    show "head_of heads d \<noteq> d" using ne unfolding eq .
    from reach obtain k where k: "(h ^^ k) d = 0" by blast
    have f0: "head_of heads 0 = 0" by (simp add: head_of_def)
    have d': "d \<in> insert 0 (set [1..<n])" using d by blast
    have "(head_of heads ^^ k) d = 0"
      by (rule follow_heads[OF closed agree f0 d' k])
    then show "\<exists>k. (head_of heads ^^ k) d = 0" by blast
  qed
  then show ?thesis using res len n_def by simp
qed

lemma decode_two_cycle:
  "chu_liu_edmonds [[0, 0, 0], [1 / 10, 0, 9 / 10], [2 / 10, 8 / 10, 0]] = Inr [0, 2, 0]"
  by (simp add: chu_liu_edmonds_def valid_shape_def contract_loop.simps greedy_head_def
      cycle_at_def expand_def remaining_def contracted_score_def enter_node_def into_node_def
      cycle_weight_def upt_conv_Cons)

lemma decode_chain:
  "chu_liu_edmonds [[0, 0, 0, 0], [9 / 10, 0, 1 / 20, 1 / 20], [1 / 20, 9 / 10, 0, 1 / 20],
                    [1 / 20, 1 / 20, 9 / 10, 0]] = Inr [0, 0, 1, 2]"
  by (simp add: chu_liu_edmonds_def valid_shape_def contract_loop.simps greedy_head_def
      cycle_at_def upt_conv_Cons)

theorem chu_liu_edmonds_tree_witness:
  "valid_shape [[0, 0, 0], [1 / 10, 0, 9 / 10], [2 / 10, 8 / 10, 0]] \<and>
   chu_liu_edmonds [[0, 0, 0], [1 / 10, 0, 9 / 10], [2 / 10, 8 / 10, 0]] = Inr [0, 2, 0] \<and>
   is_tree [2, 0] \<and>
   chu_liu_edmonds [[0, 0, 0, 0], [9 / 10, 0, 1 / 20, 1 / 20], [1 / 20, 9 / 10, 0, 1 / 20],
                    [1 / 20, 1 / 20, 9 / 10, 0]] = Inr [0, 0, 1, 2] \<and>
   is_tree [0, 1, 2]"
proof -
  have v1: "valid_shape [[0, 0, 0], [1 / 10, 0, 9 / 10], [2 / 10, 8 / 10, 0]]"
    by (simp add: valid_shape_def)
  have v2: "valid_shape [[0, 0, 0, 0], [9 / 10, 0, 1 / 20, 1 / 20], [1 / 20, 9 / 10, 0, 1 / 20],
                    [1 / 20, 1 / 20, 9 / 10, 0]]"
    by (simp add: valid_shape_def)
  have t1: "is_tree [2, 0]" using chu_liu_edmonds_tree[OF v1] decode_two_cycle by simp
  have t2: "is_tree [0, 1, 2]" using chu_liu_edmonds_tree[OF v2] decode_chain by simp
  show ?thesis using v1 t1 t2 decode_two_cycle decode_chain by blast
qed

section \<open>Properties of the inference methods\<close>

lemma latest_Nil: "latest [] k = None"
  by (simp add: latest_def)

lemma latest_Cons:
  "latest ((i, r) # ps) k =
     (case latest ps k of Some r' \<Rightarrow> Some r' | None \<Rightarrow> if k = i then Some r else None)"
  by (auto simp: latest_def map_add_def split: option.splits)

lemma latest_append:
  "latest (ps @ qs) k = (case latest qs k of Some r \<Rightarrow> Some r | None \<Rightarrow> latest ps k)"
  by (auto simp: latest_def map_add_def split: option.splits)

lemma fill_probs_stored:
  "fill_probs data bp i indexes probs = Inr probs' \<Longrightarrow> length probs = length data \<Longrightarrow>
     k < length data \<Longrightarrow>
     (case latest (zip indexes (drop i bp)) k of
        None \<Rightarrow> probs' ! k = probs ! k
      | Some m \<Rightarrow> \<exists>cp. curr_probs (length (data ! k)) m = Inr cp \<and> probs' ! k = Some cp)"
proof (induction indexes arbitrary: i probs)
  case Nil
  then show ?case by (simp add: latest_Nil)
next
  case (Cons index rest)
  from Cons.prems(1) obtain cp0 where index: "index < length data" and i: "i < length bp"
    and cp0: "curr_probs (length (data ! index)) (bp ! i) = Inr cp0"
    and rest: "fill_probs data bp (Suc i) rest (probs[index := Some cp0]) = Inr probs'"
    by (auto split: if_splits sum.splits)
  have zip: "zip (index # rest) (drop i bp) = (index, bp ! i) # zip rest (drop (Suc i) bp)"
    using i by (simp add: Cons_nth_drop_Suc[symmetric])
  have len: "length (probs[index := Some cp0]) = length data" using Cons.prems(2) by simp
  note ih = Cons.IH[OF rest len Cons.prems(3)]
  show ?case
  proof (cases "latest (zip rest (drop (Suc i) bp)) k")
    case (Some m)
    then show ?thesis using ih by (simp add: zip latest_Cons)
  next
    case None
    then have keep: "probs' ! k = probs[index := Some cp0] ! k" using ih by simp
    show ?thesis
    proof (cases "k = index")
      case True
      then show ?thesis using keep None cp0 index Cons.prems(2) by (simp add: zip latest_Cons)
    next
      case False
      then show ?thesis using keep None by (simp add: zip latest_Cons)
    qed
  qed
qed

lemma fill_probs_length:
  "fill_probs data batch_probs i indexes probs = Inr probs' \<Longrightarrow> length probs' = length probs"
  by (induction indexes arbitrary: i probs) (auto split: if_splits sum.splits)

lemma probs_loop_length:
  "probs_loop E model data batches probs = Inr probs' \<Longrightarrow> length probs' = length probs"
proof (induction batches arbitrary: probs)
  case Nil
  then show ?case by simp
next
  case (Cons b batches)
  obtain batch indexes where b: "b = (batch, indexes)" by (cases b) auto
  from Cons.prems obtain net mid where "model = Some net"
    and mid: "fill_probs data (head_predict E net batch) 0 indexes probs = Inr mid"
    and rest: "probs_loop E model data batches mid = Inr probs'"
    unfolding b by (auto split: option.splits sum.splits)
  from Cons.IH[OF rest] fill_probs_length[OF mid] show ?case by simp
qed

lemma probs_loop_None:
  "probs_loop E None data batches probs = Inr probs' \<Longrightarrow> batches = [] \<and> probs' = probs"
  by (cases batches) auto

lemma probs_loop_stored:
  "probs_loop E (Some net) data batches probs = Inr probs' \<Longrightarrow> length probs = length data \<Longrightarrow>
     k < length data \<Longrightarrow>
     length probs' = length data \<and>
     (case latest (yielded batches (head_predict E net)) k of
        None \<Rightarrow> probs' ! k = probs ! k
      | Some m \<Rightarrow> \<exists>cp. curr_probs (length (data ! k)) m = Inr cp \<and> probs' ! k = Some cp)"
proof (induction batches arbitrary: probs)
  case Nil
  then show ?case by (simp add: yielded_def latest_Nil)
next
  case (Cons b batches)
  obtain batch indexes where b: "b = (batch, indexes)" by (cases b) auto
  from Cons.prems(1) obtain mid where
    mid: "fill_probs data (head_predict E net batch) 0 indexes probs = Inr mid"
    and rest: "probs_loop E (Some net) data batches mid = Inr probs'"
    unfolding b by (auto split: sum.splits)
  have len: "length mid = length data" using fill_probs_length[OF mid] Cons.prems(2) by simp
  note first = fill_probs_stored[OF mid Cons.prems(2) Cons.prems(3)]
  note ih = Cons.IH[OF rest len Cons.prems(3)]
  have split: "yielded (b # batches) (head_predict E net) =
      zip indexes (head_predict E net batch) @ yielded batches (head_predict E net)"
    by (simp add: yielded_def b)
  show ?case
  proof (cases "latest (yielded batches (head_predict E net)) k")
    case (Some m)
    then show ?thesis using ih by (simp add: split latest_append)
  next
    case None
    then have "probs' ! k = mid ! k" and "length probs' = length data" using ih by simp_all
    then show ?thesis using None first by (simp add: split latest_append split: option.splits)
  qed
qed

lemma decode_all_nth:
  "decode_all probs = Inr heads \<Longrightarrow> k < length probs \<Longrightarrow>
     \<exists>m hs. probs ! k = Some m \<and> chu_liu_edmonds m = Inr hs \<and> heads ! k = drop 1 hs"
proof (induction probs arbitrary: heads k rule: decode_all.induct)
  case 1
  then show ?case by simp
next
  case (2 probs)
  then show ?case by simp
next
  case (3 m probs)
  from "3.prems"(1) obtain hs rest where hs: "chu_liu_edmonds m = Inr hs"
    and rest: "decode_all probs = Inr rest" and heads: "heads = drop 1 hs # rest"
    by (auto split: sum.splits)
  show ?case
  proof (cases k)
    case 0
    then show ?thesis using hs heads by simp
  next
    case (Suc j)
    then have "j < length probs" using "3.prems"(2) by simp
    from "3.IH"[OF hs rest this] show ?thesis using Suc heads by simp
  qed
qed

lemma decode_all_length: "decode_all probs = Inr heads \<Longrightarrow> length heads = length probs"
proof (induction probs arbitrary: heads rule: decode_all.induct)
  case 1
  then show ?case by simp
next
  case (2 probs)
  then show ?case by simp
next
  case (3 m probs)
  then show ?case by (auto split: sum.splits)
qed

lemma predict_heads_entries:
  assumes run: "predict_heads E P data = (P', Inr (probs, heads))"
  shows "length heads = length data"
    and "k < length data \<Longrightarrow>
      \<exists>net m cp hs. head_model P = Some net \<and>
        latest (yielded (head_batches E data) (head_predict E net)) k = Some m \<and>
        curr_probs (length (data ! k)) m = Inr cp \<and>
        chu_liu_edmonds cp = Inr hs \<and> heads ! k = drop 1 hs"
proof -
  from run obtain stored where
    loop: "probs_loop E (head_model P) data (head_batches E data)
             (replicate (length data) None) = Inr stored"
    and dec: "decode_all stored = Inr heads"
    unfolding predict_heads_def by (auto split: sum.splits)
  have len0: "length (replicate (length data) (None :: matrix option)) = length data" by simp
  show lenh: "length heads = length data"
    using probs_loop_length[OF loop] decode_all_length[OF dec] by simp
  assume k: "k < length data"
  show "\<exists>net m cp hs. head_model P = Some net \<and>
        latest (yielded (head_batches E data) (head_predict E net)) k = Some m \<and>
        curr_probs (length (data ! k)) m = Inr cp \<and>
        chu_liu_edmonds cp = Inr hs \<and> heads ! k = drop 1 hs"
  proof (cases "head_model P")
    case None
    from probs_loop_None[OF loop[unfolded None]] have "stored = replicate (length data) None"
      by simp
    then have "stored ! k = None" using k by simp
    moreover have "k < length stored" using decode_all_length[OF dec] lenh k by simp
    ultimately show ?thesis using decode_all_nth[OF dec, of k] by auto
  next
    case (Some net)
    from probs_loop_stored[OF loop[unfolded Some] len0 k]
    have len: "length stored = length data"
      and st: "case latest (yielded (head_batches E data) (head_predict E net)) k of
        None \<Rightarrow> stored ! k = replicate (length data) None ! k
      | Some m \<Rightarrow> \<exists>cp. curr_probs (length (data ! k)) m = Inr cp \<and> stored ! k = Some cp"
      by simp_all
    from decode_all_nth[OF dec, of k] len k obtain cp hs where
      cp: "stored ! k = Some cp" and hs: "chu_liu_edmonds cp = Inr hs"
      and hk: "heads ! k = drop 1 hs" by auto
    show ?thesis
    proof (cases "latest (yielded (head_batches E data) (head_predict E net)) k")
      case None
      then show ?thesis using st cp k by simp
    next
      case (Some m)
      then show ?thesis using st cp hs hk \<open>head_model P = Some net\<close> by auto
    qed
  qed
qed


lemma fill_labels_length:
  "fill_labels names data batch_labels i indexes answer = Inr answer' \<Longrightarrow>
     length answer' = length answer"
  by (induction indexes arbitrary: i answer) (auto split: if_splits sum.splits)

lemma fill_labels_stored:
  "fill_labels names data bl i indexes answer = Inr answer' \<Longrightarrow> length answer = length data \<Longrightarrow>
     k < length data \<Longrightarrow>
     (case latest (zip indexes (drop i bl)) k of
        None \<Rightarrow> answer' ! k = answer ! k
      | Some row \<Rightarrow>
          \<exists>labels. curr_labels names (length (data ! k)) row = Inr labels \<and>
                   answer' ! k = Some labels)"
proof (induction indexes arbitrary: i answer)
  case Nil
  then show ?case by (simp add: latest_Nil)
next
  case (Cons index rest)
  from Cons.prems(1) obtain l0 where index: "index < length data" and i: "i < length bl"
    and l0: "curr_labels names (length (data ! index)) (bl ! i) = Inr l0"
    and rest: "fill_labels names data bl (Suc i) rest (answer[index := Some l0]) = Inr answer'"
    by (auto split: if_splits sum.splits)
  have zip: "zip (index # rest) (drop i bl) = (index, bl ! i) # zip rest (drop (Suc i) bl)"
    using i by (simp add: Cons_nth_drop_Suc[symmetric])
  have len: "length (answer[index := Some l0]) = length data" using Cons.prems(2) by simp
  note ih = Cons.IH[OF rest len Cons.prems(3)]
  show ?case
  proof (cases "latest (zip rest (drop (Suc i) bl)) k")
    case (Some m)
    then show ?thesis using ih by (simp add: zip latest_Cons)
  next
    case None
    then have keep: "answer' ! k = answer[index := Some l0] ! k" using ih by simp
    show ?thesis
    proof (cases "k = index")
      case True
      then show ?thesis using keep None l0 index Cons.prems(2) by (simp add: zip latest_Cons)
    next
      case False
      then show ?thesis using keep None by (simp add: zip latest_Cons)
    qed
  qed
qed

lemma labels_loop_length:
  "labels_loop E P data batches answer = Inr answer' \<Longrightarrow> length answer' = length answer"
proof (induction batches arbitrary: answer)
  case Nil
  then show ?case by simp
next
  case (Cons b batches)
  obtain batch indexes where b: "b = (batch, indexes)" by (cases b) auto
  from Cons.prems obtain mid where mid: "length mid = length answer"
    and rest: "labels_loop E P data batches mid = Inr answer'"
    unfolding b
    by (auto split: option.splits sum.splits dest: fill_labels_length)
  from Cons.IH[OF rest] mid show ?case by simp
qed

lemma labels_loop_None:
  "dep_model P = None \<Longrightarrow> labels_loop E P data batches answer = Inr answer' \<Longrightarrow>
     batches = [] \<and> answer' = answer"
  by (cases batches) auto

lemma labels_loop_stored:
  "labels_loop E P data batches answer = Inr answer' \<Longrightarrow> dep_model P = Some net \<Longrightarrow>
     length answer = length data \<Longrightarrow> k < length data \<Longrightarrow>
     (case latest (yielded batches (dep_labels E net)) k of
        None \<Rightarrow> answer' ! k = answer ! k
      | Some row \<Rightarrow>
          \<exists>labels. curr_labels (map_option (symbols E) (dep_vocab P)) (length (data ! k)) row
                     = Inr labels \<and>
                   answer' ! k = Some labels)"
proof (induction batches arbitrary: answer)
  case Nil
  then show ?case by (simp add: yielded_def latest_Nil)
next
  case (Cons b batches)
  obtain batch indexes where b: "b = (batch, indexes)" by (cases b) auto
  from Cons.prems(1,2) obtain mid where
    mid: "fill_labels (map_option (symbols E) (dep_vocab P)) data (dep_labels E net batch) 0
            indexes answer = Inr mid"
    and rest: "labels_loop E P data batches mid = Inr answer'"
    unfolding b by (auto split: sum.splits)
  have len: "length mid = length data" using fill_labels_length[OF mid] Cons.prems(3) by simp
  note first = fill_labels_stored[OF mid Cons.prems(3) Cons.prems(4)]
  note ih = Cons.IH[OF rest Cons.prems(2) len Cons.prems(4)]
  have split: "yielded (b # batches) (dep_labels E net) =
      zip indexes (dep_labels E net batch) @ yielded batches (dep_labels E net)"
    by (simp add: yielded_def b)
  show ?case
  proof (cases "latest (yielded batches (dep_labels E net)) k")
    case (Some m)
    then show ?thesis using ih by (simp add: split latest_append)
  next
    case None
    then have "answer' ! k = mid ! k" using ih by simp
    then show ?thesis using None first by (simp add: split latest_append split: option.splits)
  qed
qed

lemma predict_deps_entries:
  assumes run: "predict_deps E P data heads = (P', Inr answer)"
  shows "length answer = length data"
    and "k < length data \<Longrightarrow>
      (case dep_model P of
         None \<Rightarrow> answer ! k = None
       | Some net \<Rightarrow>
           (case latest (yielded (dep_batches E data (make_indexes_for_syntax E heads))
                          (dep_labels E net)) k of
              None \<Rightarrow> answer ! k = None
            | Some row \<Rightarrow>
                \<exists>labels. curr_labels (map_option (symbols E) (dep_vocab P))
                           (length (data ! k)) row = Inr labels \<and>
                         answer ! k = Some labels))"
proof -
  from run have loop: "labels_loop E P data (dep_batches E data (make_indexes_for_syntax E heads))
      (replicate (length data) None) = Inr answer"
    unfolding predict_deps_def by auto
  show "length answer = length data" using labels_loop_length[OF loop] by simp
  assume k: "k < length data"
  have len0: "length (replicate (length data) (None :: string list option)) = length data"
    by simp
  show "case dep_model P of
         None \<Rightarrow> answer ! k = None
       | Some net \<Rightarrow>
           (case latest (yielded (dep_batches E data (make_indexes_for_syntax E heads))
                          (dep_labels E net)) k of
              None \<Rightarrow> answer ! k = None
            | Some row \<Rightarrow>
                \<exists>labels. curr_labels (map_option (symbols E) (dep_vocab P))
                           (length (data ! k)) row = Inr labels \<and>
                         answer ! k = Some labels)"
  proof (cases "dep_model P")
    case None
    from labels_loop_None[OF None loop] show ?thesis using None k by simp
  next
    case (Some net)
    from labels_loop_stored[OF loop Some len0 k] show ?thesis
      using Some k by (simp split: option.splits)
  qed
qed

text \<open>
  Claim C7. Whenever \<open>predict\<close> returns, it returns the pair of the decoded heads and the
  labels; each of the two lists has exactly one entry per input sentence (\<open>pad_data\<close> pads
  every sentence and keeps their number), and the entry at position \<open>k\<close> belongs to sentence
  \<open>k\<close>: the heads are the decoding of the matrix computed from the length of sentence \<open>k\<close>
  and the row the head network returned where the generator yielded the index \<open>k\<close>, and the
  labels are the names of the label row returned where the second generator yielded \<open>k\<close>,
  cut to the length of sentence \<open>k\<close> (\<open>None\<close> for a sentence that generator never yields).
\<close>

theorem predict_one_entry_per_sentence:
  "predict E P data = (P', Inr (heads, labels)) \<Longrightarrow>
     length (pad_data E data) = length data \<Longrightarrow>
     length heads = length data \<and> length labels = length data \<and>
     (\<forall>k<length data.
        (\<exists>net m cp hs. head_model P = Some net \<and>
           latest (yielded (head_batches E (pad_data E data)) (head_predict E net)) k = Some m \<and>
           curr_probs (length (pad_data E data ! k)) m = Inr cp \<and>
           chu_liu_edmonds cp = Inr hs \<and> heads ! k = drop 1 hs) \<and>
        (case dep_model P of
           None \<Rightarrow> labels ! k = None
         | Some net \<Rightarrow>
             (case latest (yielded (dep_batches E (pad_data E data)
                                      (make_indexes_for_syntax E heads))
                            (dep_labels E net)) k of
                None \<Rightarrow> labels ! k = None
              | Some row \<Rightarrow>
                  \<exists>names. curr_labels (map_option (symbols E) (dep_vocab P))
                            (length (pad_data E data ! k)) row = Inr names \<and>
                          labels ! k = Some names)))"
proof -
  assume run: "predict E P data = (P', Inr (heads, labels))"
    and pad: "length (pad_data E data) = length data"
  obtain P1 r1 where h: "predict_heads E P (pad_data E data) = (P1, r1)"
    by (cases "predict_heads E P (pad_data E data)") auto
  have P1: "P1 = P" using h by (simp add: predict_heads_def)
  from run h obtain probs where r1: "r1 = Inr (probs, heads)"
    and d: "predict_deps E P (pad_data E data) heads = (P', Inr labels)"
    unfolding predict_def P1 by (auto split: sum.splits prod.splits)
  note hs = predict_heads_entries[OF h[unfolded r1]]
  note ls = predict_deps_entries[OF d]
  show ?thesis using hs(1) ls(1) hs(2) ls(2) pad by auto
qed

lemma example_run:
  "predict example_inference example_parser [[''go''], [''they'', ''go'']] =
     (example_parser, Inr ([[0], [0, 1]], [Some [''nsubj''], Some [''obj'', ''nsubj'']]))"
  by (simp add: predict_def predict_heads_def predict_deps_def curr_probs_def curr_labels_def
      normalize_probs_def truncate_probs_def slice_to_def slice_1_to_def
      chu_liu_edmonds_def valid_shape_def contract_loop.simps greedy_head_def cycle_at_def
      upt_conv_Cons)

theorem predict_one_entry_per_sentence_witness:
  "predict example_inference example_parser [[''go''], [''they'', ''go'']] =
     (example_parser, Inr ([[0], [0, 1]], [Some [''nsubj''], Some [''obj'', ''nsubj'']])) \<and>
   length (pad_data example_inference [[''go''], [''they'', ''go'']]) = 2 \<and>
   length [[0], [0, 1 :: nat]] = 2 \<and>
   length [Some [''nsubj''], Some [''obj'', ''nsubj'']] = 2 \<and>
   curr_probs 4 [[1 / 4, 1 / 4, 1 / 4, 1 / 4], [1 / 2, 1 / 8, 1 / 8, 1 / 4],
                 [1 / 8, 1 / 2, 1 / 8, 1 / 4], [1 / 4, 1 / 4, 1 / 4, 1 / 4]] =
     Inr [[1 / 3, 1 / 3, 1 / 3], [2 / 3, 1 / 6, 1 / 6], [1 / 6, 2 / 3, 1 / 6]] \<and>
   chu_liu_edmonds [[1 / 3, 1 / 3, 1 / 3], [2 / 3, 1 / 6, 1 / 6], [1 / 6, 2 / 3, 1 / 6]] =
     Inr [0, 0, 1]"
proof -
  have pad: "length (pad_data example_inference [[''go''], [''they'', ''go'']]) =
      length [[''go''], [''they'', ''go'']]" by simp
  note entries = predict_one_entry_per_sentence[OF example_run pad]
  have c: "curr_probs 4 [[1 / 4, 1 / 4, 1 / 4, 1 / 4], [1 / 2, 1 / 8, 1 / 8, 1 / 4],
                 [1 / 8, 1 / 2, 1 / 8, 1 / 4], [1 / 4, 1 / 4, 1 / 4, 1 / 4]] =
     Inr [[1 / 3, 1 / 3, 1 / 3], [2 / 3, 1 / 6, 1 / 6], [1 / 6, 2 / 3, 1 / 6]]"
    by (simp add: curr_probs_def normalize_probs_def truncate_probs_def slice_to_def)
  have d: "chu_liu_edmonds [[1 / 3, 1 / 3, 1 / 3], [2 / 3, 1 / 6, 1 / 6], [1 / 6, 2 / 3, 1 / 6]] =
     Inr [0, 0, 1]"
    by (simp add: chu_liu_edmonds_def valid_shape_def contract_loop.simps greedy_head_def
        cycle_at_def upt_conv_Cons)
  show ?thesis using entries example_run c d by simp
qed

lemma chu_liu_edmonds_error: "chu_liu_edmonds m = Inl e \<Longrightarrow> e = ShapeMismatch"
  by (auto simp: chu_liu_edmonds_def split: if_splits)

lemma decode_all_error:
  "list_all (\<lambda>p. p \<noteq> None) probs \<Longrightarrow> decode_all probs = Inl e \<Longrightarrow> e = ShapeMismatch"
proof (induction probs rule: decode_all.induct)
  case 1
  then show ?case by simp
next
  case (2 probs)
  then show ?case by simp
next
  case (3 m probs)
  then show ?case by (auto split: sum.splits dest: chu_liu_edmonds_error)
qed

lemma decode_all_invalid:
  assumes bad: "chu_liu_edmonds m = Inl ShapeMismatch"
  shows "list_all (\<lambda>p. p \<noteq> None) before \<Longrightarrow>
         decode_all (before @ Some m # after) = Inl ShapeMismatch"
proof (induction before)
  case Nil
  then show ?case using bad by simp
next
  case (Cons p before)
  then obtain m' where p: "p = Some m'" by auto
  have rest: "decode_all (before @ Some m # after) = Inl ShapeMismatch"
    using Cons by simp
  show ?case
  proof (cases "chu_liu_edmonds m'")
    case (Inl e)
    then show ?thesis using chu_liu_edmonds_error[OF Inl] by (simp add: p)
  next
    case (Inr hs)
    then show ?thesis using rest by (simp add: p)
  qed
qed

text \<open>
  Claim C5. On a matrix of invalid shape (not square, or smaller than 2x2) the decoder does
  not decode but fails with the shape-mismatch error; the comprehension of \<open>predict_heads\<close>
  that calls it ends with this error, and \<open>predict_heads\<close> returns it to its caller. There
  is no second call: the outcome of \<open>predict_heads\<close> is the error.
\<close>

theorem invalid_shape_surfaces:
  "\<not> valid_shape m \<Longrightarrow>
     chu_liu_edmonds m = Inl ShapeMismatch \<and>
     (list_all (\<lambda>p. p \<noteq> None) before \<longrightarrow>
        decode_all (before @ Some m # after) = Inl ShapeMismatch) \<and>
     (probs_loop E (head_model P) data (head_batches E data) (replicate (length data) None)
          = Inr (before @ Some m # after) \<and> list_all (\<lambda>p. p \<noteq> None) before \<longrightarrow>
        predict_heads E P data = (P, Inl ShapeMismatch))"
proof -
  assume "\<not> valid_shape m"
  then have bad: "chu_liu_edmonds m = Inl ShapeMismatch" by (simp add: chu_liu_edmonds_def)
  show ?thesis using bad decode_all_invalid[OF bad, of before after]
    by (auto simp: predict_heads_def)
qed

lemma example_empty_sentence:
  "predict_heads example_inference example_parser [[''<s>'', ''</s>'']] =
     (example_parser, Inl ShapeMismatch)"
  by (simp add: predict_heads_def curr_probs_def normalize_probs_def truncate_probs_def
      slice_to_def chu_liu_edmonds_def valid_shape_def)

theorem invalid_shape_surfaces_witness:
  "\<not> valid_shape [[1]] \<and> \<not> valid_shape [[1, 2], [3]] \<and>
   chu_liu_edmonds [[1]] = Inl ShapeMismatch \<and>
   chu_liu_edmonds [[1, 2], [3]] = Inl ShapeMismatch \<and>
   decode_all [Some [[0, 0], [1, 0]], Some [[1]], None] = Inl ShapeMismatch \<and>
   predict_heads example_inference example_parser [[''<s>'', ''</s>'']] =
     (example_parser, Inl ShapeMismatch)"
proof -
  have v1: "\<not> valid_shape [[1]]" and v2: "\<not> valid_shape [[1, 2], [3]]"
    by (simp_all add: valid_shape_def)
  have c1: "chu_liu_edmonds [[1]] = Inl ShapeMismatch"
    by (rule invalid_shape_surfaces[OF v1, THEN conjunct1])
  have c2: "chu_liu_edmonds [[1, 2], [3]] = Inl ShapeMismatch"
    by (rule invalid_shape_surfaces[OF v2, THEN conjunct1])
  have "list_all (\<lambda>p. p \<noteq> None) [Some [[0, 0], [1, 0 :: rat]]]" by simp
  then have "decode_all ([Some [[0, 0], [1, 0]]] @ Some [[1]] # [None]) = Inl ShapeMismatch"
    by (rule invalid_shape_surfaces[OF v1, THEN conjunct2, THEN conjunct1, rule_format])
  then have c3: "decode_all [Some [[0, 0], [1, 0]], Some [[1]], None] = Inl ShapeMismatch"
    by simp
  show ?thesis using v1 v2 c1 c2 c3 example_empty_sentence by blast
qed







section \<open>Vocabularies are built from the training data only\<close>

lemma transform_data_keep: "fst (transform_data E P sents False) = P"
  by (simp add: transform_data_def Let_def)

lemma transform_data_train:
  "fst (transform_data E P sents True) =
     P\<lparr>symbol_vocabulary := Some (train_symbols E (map (map (process_word E)) sents))\<rparr>"
  by (simp add: transform_data_def Let_def)

lemma transform_tags_keep: "fst (transform_tags E P tags False) = P"
  by (simp add: transform_tags_def Let_def split: option.splits)

lemma transform_tags_train:
  "fst (transform_tags E P (Some ts) True) = P\<lparr>tag_vocabulary := Some (trained_features E ts)\<rparr>"
  by (simp add: transform_tags_def trained_features_def Let_def split: option.splits)

lemma and_then_cases:
  assumes "and_then r f = (P', out)"
  obtains e where "r = (P', Inl e)" and "out = Inl e"
  | P1 a where "r = (P1, Inr a)" and "f P1 a = (P', out)"
  using assms unfolding and_then_def by (auto split: prod.splits sum.splits)

lemma encode_dev_keep: "fst (encode_dev E P dev dev_tags) = P"
proof (cases dev)
  case None
  then show ?thesis by (simp add: encode_dev_def)
next
  case (Some triple)
  obtain s h d where pad: "pad_data3 E triple = (s, h, d)" by (cases "pad_data3 E triple") auto
  obtain r1 where r1: "transform_data E P s False = (P, r1)"
    using transform_data_keep[of E P s] by (cases "transform_data E P s False") auto
  obtain r2 where r2: "transform_tags E P dev_tags False = (P, r2)"
    using transform_tags_keep[of E P dev_tags] by (cases "transform_tags E P dev_tags False") auto
  show ?thesis
    by (simp add: encode_dev_def Some pad and_then_def r1 r2 split: sum.splits)
qed

lemma train_head_model_vocab:
  "train_head_model E P sents heads dev tags dev_tags = (P', r) \<Longrightarrow>
     symbol_vocabulary P' = symbol_vocabulary P \<and> tag_vocabulary P' = tag_vocabulary P \<and>
     dep_vocab P' = dep_vocab P"
  by (auto simp: train_head_model_def split: sum.splits)

lemma train_dep_model_vocab:
  "train_dep_model E P train_set dev tags dev_tags = (P', r) \<Longrightarrow>
     symbol_vocabulary P' = symbol_vocabulary P \<and> tag_vocabulary P' = tag_vocabulary P \<and>
     dep_vocab P' = dep_vocab P"
  by (auto simp: train_dep_model_def split: sum.splits)


lemma and_then_wrap: "fst (and_then r (\<lambda>P a. (P, Inr (g a)))) = fst r"
  by (auto simp: and_then_def split: prod.splits sum.splits)

lemma vocabularies_after_train:
  assumes run: "train E P sents heads deps dev tags dev_tags = (P', r)"
  shows "symbol_vocabulary P' =
           (if use_char_model P then Some (trained_symbols E sents heads deps)
            else symbol_vocabulary P)"
    and "tag_vocabulary P' = tag_vocabulary P \<or>
           (\<exists>ts. tags = Some ts \<and> tag_vocabulary P' = Some (trained_features E ts))"
    and "dep_vocab P' = dep_vocab P \<or> dep_vocab P' = Some (trained_labels E sents heads deps)"
    and "r = Inr () \<longrightarrow>
           tag_vocabulary P' =
             (case tags of None \<Rightarrow> tag_vocabulary P | Some ts \<Rightarrow> Some (trained_features E ts)) \<and>
           dep_vocab P' = Some (trained_labels E sents heads deps)"
proof -
  obtain ps ph pd where pad: "pad_data3 E (sents, heads, deps) = (ps, ph, pd)"
    by (cases "pad_data3 E (sents, heads, deps)") auto
  define Vsym where "Vsym = trained_symbols E sents heads deps"
  define Vdep where "Vdep = trained_labels E sents heads deps"
  have Vsym: "Vsym = train_symbols E (map (map (process_word E)) ps)"
    unfolding Vsym_def trained_symbols_def pad by simp
  have Vdep: "Vdep = train_labels E pd" unfolding Vdep_def trained_labels_def pad by simp
  define PA where "PA = (if use_char_model P then P\<lparr>symbol_vocabulary := Some Vsym\<rparr> else P)"
  define PB where "PB = (case tags of None \<Rightarrow> PA
                         | Some ts \<Rightarrow> PA\<lparr>tag_vocabulary := Some (trained_features E ts)\<rparr>)"
  define rA where "rA =
    (if use_char_model P
     then and_then (transform_data E P ps True) (\<lambda>P1 coded. (P1, Inr (Coded coded)))
     else (P, Inr (Words ps)))"
  define rB where "rB =
    (case tags of None \<Rightarrow> (PA, Inr None)
     | Some ts \<Rightarrow> and_then (transform_tags E PA (Some ts) True)
                   (\<lambda>P2 vectors. (P2, Inr (Some vectors))))"
  have fstA: "fst rA = PA"
    unfolding rA_def PA_def Vsym by (simp add: and_then_wrap transform_data_train)
  have fstB: "fst rB = PB"
    unfolding rB_def PB_def by (simp add: and_then_wrap transform_tags_train split: option.splits)
  have fstC: "fst (encode_dev E PB dev dev_tags) = PB" by (rule encode_dev_keep)
  have A: "symbol_vocabulary PA =
             (if use_char_model P then Some Vsym else symbol_vocabulary P)"
    "tag_vocabulary PA = tag_vocabulary P" "dep_vocab PA = dep_vocab P"
    unfolding PA_def by simp_all
  have B: "symbol_vocabulary PB = symbol_vocabulary PA" "dep_vocab PB = dep_vocab PA"
    "tag_vocabulary PB =
       (case tags of None \<Rightarrow> tag_vocabulary P | Some ts \<Rightarrow> Some (trained_features E ts))"
    unfolding PB_def using A(2) by (simp_all split: option.splits)
  have Btag: "tag_vocabulary PB = tag_vocabulary P \<or>
      (\<exists>ts. tags = Some ts \<and> tag_vocabulary PB = Some (trained_features E ts))"
    using B(3) by (cases tags) simp_all
  from run have run': "and_then rA (\<lambda>P1 sent_data.
      and_then
        (case tags of None \<Rightarrow> (P1, Inr None)
         | Some ts \<Rightarrow> and_then (transform_tags E P1 (Some ts) True)
                       (\<lambda>P2 vectors. (P2, Inr (Some vectors))))
        (\<lambda>P2 tag_data.
           and_then (encode_dev E P2 dev dev_tags)
             (\<lambda>P3 (dev_data, dev_tag_data).
                and_then
                  (train_head_model E (P3\<lparr>dep_vocab := Some (train_labels E pd)\<rparr>)
                     sent_data ph
                     (map_option (\<lambda>(s, h, d). (s, h)) dev_data) tag_data dev_tag_data)
                  (\<lambda>P4 u.
                     train_dep_model E P4 (sent_data, ph, pd) dev_data
                       tag_data dev_tag_data)))) = (P', r)"
    unfolding train_def pad rA_def by simp
  have goal: "symbol_vocabulary P' = symbol_vocabulary PA \<and>
      (tag_vocabulary P' = tag_vocabulary P \<or>
        (\<exists>ts. tags = Some ts \<and> tag_vocabulary P' = Some (trained_features E ts))) \<and>
      (dep_vocab P' = dep_vocab P \<or> dep_vocab P' = Some Vdep) \<and>
      (r = Inr () \<longrightarrow> tag_vocabulary P' = tag_vocabulary PB \<and> dep_vocab P' = Some Vdep)"
  using run'
  proof (cases rule: and_then_cases)
    case (1 e)
    then have "P' = PA" using fstA by simp
    then show ?thesis using A 1 by simp
  next
    case (2 P1 sent_data)
    then have P1: "P1 = PA" using fstA by simp
    from 2(2) have stepB: "and_then rB
        (\<lambda>P2 tag_data.
           and_then (encode_dev E P2 dev dev_tags)
             (\<lambda>P3 (dev_data, dev_tag_data).
                and_then
                  (train_head_model E (P3\<lparr>dep_vocab := Some (train_labels E pd)\<rparr>)
                     sent_data ph
                     (map_option (\<lambda>(s, h, d). (s, h)) dev_data) tag_data dev_tag_data)
                  (\<lambda>P4 u.
                     train_dep_model E P4 (sent_data, ph, pd) dev_data
                       tag_data dev_tag_data))) = (P', r)"
      unfolding P1 rB_def .
    then show ?thesis
    proof (cases rule: and_then_cases)
      case (1 e)
      then have "P' = PB" using fstB by simp
      then show ?thesis using A B Btag 1 by simp
    next
      case (2 P2 tag_data)
      then have P2: "P2 = PB" using fstB by simp
      from 2(2) show ?thesis unfolding P2
      proof (cases rule: and_then_cases)
        case (1 e)
        then have "P' = PB" using fstC by simp
        then show ?thesis using A B Btag 1 by simp
      next
        case (2 P3 dev_pair)
        then have P3: "P3 = PB" using fstC by simp
        obtain dev_data dev_tag_data where dp: "dev_pair = (dev_data, dev_tag_data)"
          by (cases dev_pair) auto
        from 2(2) have stepD: "and_then
            (train_head_model E (PB\<lparr>dep_vocab := Some Vdep\<rparr>) sent_data ph
               (map_option (\<lambda>(s, h, d). (s, h)) dev_data) tag_data dev_tag_data)
            (\<lambda>P4 u. train_dep_model E P4 (sent_data, ph, pd) dev_data tag_data dev_tag_data)
            = (P', r)"
          unfolding P3 dp Vdep by simp
        then show ?thesis
        proof (cases rule: and_then_cases)
          case (1 e)
          from train_head_model_vocab[OF 1(1)] show ?thesis using A B Btag 1(2) by simp
        next
          case (2 P4 u)
          from train_head_model_vocab[OF 2(1)] train_dep_model_vocab[OF 2(2)]
          show ?thesis using A B Btag by simp
        qed
      qed
    qed
  qed
  show "symbol_vocabulary P' =
           (if use_char_model P then Some (trained_symbols E sents heads deps)
            else symbol_vocabulary P)"
    using goal A(1) unfolding Vsym_def by simp
  show "tag_vocabulary P' = tag_vocabulary P \<or>
           (\<exists>ts. tags = Some ts \<and> tag_vocabulary P' = Some (trained_features E ts))"
    using goal by blast
  show "dep_vocab P' = dep_vocab P \<or> dep_vocab P' = Some (trained_labels E sents heads deps)"
    using goal unfolding Vdep_def by blast
  show "r = Inr () \<longrightarrow>
           tag_vocabulary P' =
             (case tags of None \<Rightarrow> tag_vocabulary P | Some ts \<Rightarrow> Some (trained_features E ts)) \<and>
           dep_vocab P' = Some (trained_labels E sents heads deps)"
    using goal B(3) unfolding Vdep_def by simp
qed


lemma predict_heads_keep: "fst (predict_heads I P data) = P"
  by (simp add: predict_heads_def)

lemma predict_deps_keep: "fst (predict_deps I P data heads) = P"
  by (simp add: predict_deps_def)

lemma predict_keep: "fst (predict I P data) = P"
  by (simp add: predict_def predict_heads_def predict_deps_def split: sum.splits prod.splits)

lemma and_then_Inr:
  assumes "and_then r f = (P', Inr x)"
  obtains P1 a where "r = (P1, Inr a)" and "f P1 a = (P', Inr x)"
  using assms unfolding and_then_def by (auto split: prod.splits sum.splits)

lemma transform_data_result:
  "transform_data E Q sents False = (Q, coded_with E (symbol_vocabulary Q) sents)"
  by (simp add: transform_data_def coded_with_def Let_def)

lemma transform_data_train_result:
  "transform_data E Q sents True =
     (Q\<lparr>symbol_vocabulary := Some (train_symbols E (map (map (process_word E)) sents))\<rparr>,
      coded_with E (Some (train_symbols E (map (map (process_word E)) sents))) sents)"
  by (simp add: transform_data_def coded_with_def Let_def)

lemma transform_tags_result:
  "transform_tags E Q tags False =
     (Q, case tags of
           None \<Rightarrow> Inl TypeError
         | Some ts \<Rightarrow>
             (case tag_vocabulary Q of
                None \<Rightarrow> if ts = [] then Inr [] else Inl AttributeError
              | Some vocab \<Rightarrow> Inr (vectors_with E vocab ts)))"
  by (simp add: transform_tags_def vectors_with_def Let_def split: option.splits)

lemma transform_tags_train_result:
  "transform_tags E Q (Some ts) True =
     (Q\<lparr>tag_vocabulary := Some (trained_features E ts)\<rparr>,
      Inr (vectors_with E (trained_features E ts) ts))"
  by (simp add: transform_tags_def vectors_with_def trained_features_def Let_def)

lemma encode_dev_result:
  assumes "encode_dev E Q dev dev_tags = (Q', Inr (dev_data, dev_tag_data))"
  shows "case dev of
           None \<Rightarrow> dev_data = None \<and> dev_tag_data = None
         | Some triple \<Rightarrow>
             (\<exists>dev_sent_data.
                coded_as E Q (fst (pad_data3 E triple)) dev_sent_data \<and>
                dev_data = Some (dev_sent_data, snd (pad_data3 E triple))) \<and>
             (if use_tags Q
              then (\<exists>vectors. vectors_as E Q dev_tags vectors \<and> dev_tag_data = Some vectors)
              else dev_tag_data = None)"
proof (cases dev)
  case None
  then show ?thesis using assms by (simp add: encode_dev_def)
next
  case (Some triple)
  obtain s h d where pad: "pad_data3 E triple = (s, h, d)" by (cases "pad_data3 E triple") auto
  show ?thesis
    using assms
    by (auto simp: Some pad encode_dev_def and_then_def transform_data_result
        transform_tags_result coded_as_def vectors_as_def
        split: if_splits sum.splits option.splits)
qed


lemma coded_as_cong:
  "use_char_model Q' = use_char_model Q \<Longrightarrow> symbol_vocabulary Q' = symbol_vocabulary Q \<Longrightarrow>
     coded_as E Q' sents sd = coded_as E Q sents sd"
  by (simp add: coded_as_def)

lemma vectors_as_cong:
  "tag_vocabulary Q' = tag_vocabulary Q \<Longrightarrow> vectors_as E Q' tags tv = vectors_as E Q tags tv"
  by (simp add: vectors_as_def)

lemma train_head_model_Inr:
  assumes "train_head_model E Q sents heads dev tags dev_tags = (Q', Inr u)"
  obtains net net' where
    "fit_head E net sents heads dev (if use_tags Q then tags else None)
       (if use_tags Q then dev_tags else None) = Inr net'"
    and "Q' = Q\<lparr>head_model := Some net'\<rparr>"
  using assms unfolding train_head_model_def by (auto split: sum.splits)

lemma train_dep_model_Inr:
  assumes "train_dep_model E Q train_set dev tags dev_tags = (Q', Inr u)"
  obtains net net' where
    "fit_dep E net (dep_vocab Q) train_set dev (if use_tags Q then tags else None)
       (if use_tags Q then dev_tags else None) = Inr net'"
    and "Q' = Q\<lparr>dep_model := Some net'\<rparr>"
  using assms unfolding train_dep_model_def by (auto split: sum.splits)

lemma train_success:
  assumes run: "train E P sents heads deps dev tags dev_tags = (P', Inr ())"
  shows "\<exists>sent_data tag_data dev_data dev_tag_data hnet hnet' dnet dnet'.
      coded_as E P' (fst (pad_data3 E (sents, heads, deps))) sent_data \<and>
      (case tags of
         None \<Rightarrow> tag_data = None
       | Some ts \<Rightarrow> \<exists>vectors. vectors_as E P' tags vectors \<and> tag_data = Some vectors) \<and>
      (case dev of
         None \<Rightarrow> dev_data = None \<and> dev_tag_data = None
       | Some triple \<Rightarrow>
           (\<exists>dev_sent_data.
              coded_as E P' (fst (pad_data3 E triple)) dev_sent_data \<and>
              dev_data = Some (dev_sent_data, snd (pad_data3 E triple))) \<and>
           (if use_tags P'
            then (\<exists>vectors. vectors_as E P' dev_tags vectors \<and> dev_tag_data = Some vectors)
            else dev_tag_data = None)) \<and>
      fit_head E hnet sent_data (fst (snd (pad_data3 E (sents, heads, deps))))
        (map_option (\<lambda>(s, h, d). (s, h)) dev_data)
        (if use_tags P' then tag_data else None)
        (if use_tags P' then dev_tag_data else None) = Inr hnet' \<and>
      head_model P' = Some hnet' \<and>
      fit_dep E dnet (dep_vocab P')
        (sent_data, snd (pad_data3 E (sents, heads, deps))) dev_data
        (if use_tags P' then tag_data else None)
        (if use_tags P' then dev_tag_data else None) = Inr dnet' \<and>
      dep_model P' = Some dnet'"
proof -
  obtain ps ph pd where pad: "pad_data3 E (sents, heads, deps) = (ps, ph, pd)"
    by (cases "pad_data3 E (sents, heads, deps)") auto
  define Vsym where "Vsym = train_symbols E (map (map (process_word E)) ps)"
  define PA where "PA = (if use_char_model P then P\<lparr>symbol_vocabulary := Some Vsym\<rparr> else P)"
  define PB where "PB = (case tags of None \<Rightarrow> PA
                         | Some ts \<Rightarrow> PA\<lparr>tag_vocabulary := Some (trained_features E ts)\<rparr>)"
  from run have run': "and_then
      (if use_char_model P
       then and_then (transform_data E P ps True) (\<lambda>P1 coded. (P1, Inr (Coded coded)))
       else (P, Inr (Words ps)))
      (\<lambda>P1 sent_data.
      and_then
        (case tags of None \<Rightarrow> (P1, Inr None)
         | Some ts \<Rightarrow> and_then (transform_tags E P1 (Some ts) True)
                       (\<lambda>P2 vectors. (P2, Inr (Some vectors))))
        (\<lambda>P2 tag_data.
           and_then (encode_dev E P2 dev dev_tags)
             (\<lambda>P3 (dev_data, dev_tag_data).
                and_then
                  (train_head_model E (P3\<lparr>dep_vocab := Some (train_labels E pd)\<rparr>)
                     sent_data ph
                     (map_option (\<lambda>(s, h, d). (s, h)) dev_data) tag_data dev_tag_data)
                  (\<lambda>P4 u.
                     train_dep_model E P4 (sent_data, ph, pd) dev_data
                       tag_data dev_tag_data)))) = (P', Inr ())"
    unfolding train_def pad by simp
  from run' obtain P1 sent_data where
    stepA: "(if use_char_model P
       then and_then (transform_data E P ps True) (\<lambda>P1 coded. (P1, Inr (Coded coded)))
       else (P, Inr (Words ps))) = (P1, Inr sent_data)"
    and restA: "and_then
        (case tags of None \<Rightarrow> (P1, Inr None)
         | Some ts \<Rightarrow> and_then (transform_tags E P1 (Some ts) True)
                       (\<lambda>P2 vectors. (P2, Inr (Some vectors))))
        (\<lambda>P2 tag_data.
           and_then (encode_dev E P2 dev dev_tags)
             (\<lambda>P3 (dev_data, dev_tag_data).
                and_then
                  (train_head_model E (P3\<lparr>dep_vocab := Some (train_labels E pd)\<rparr>)
                     sent_data ph
                     (map_option (\<lambda>(s, h, d). (s, h)) dev_data) tag_data dev_tag_data)
                  (\<lambda>P4 u.
                     train_dep_model E P4 (sent_data, ph, pd) dev_data
                       tag_data dev_tag_data))) = (P', Inr ())"
    by (rule and_then_Inr)
  have P1: "P1 = PA" and sdA: "coded_as E PA ps sent_data"
    using stepA unfolding PA_def Vsym_def coded_as_def
    by (auto simp: and_then_def transform_data_train_result split: if_splits sum.splits)
  from restA obtain P2 tag_data where
    stepB: "(case tags of None \<Rightarrow> (P1, Inr None)
         | Some ts \<Rightarrow> and_then (transform_tags E P1 (Some ts) True)
                       (\<lambda>P2 vectors. (P2, Inr (Some vectors)))) = (P2, Inr tag_data)"
    and restB: "and_then (encode_dev E P2 dev dev_tags)
             (\<lambda>P3 (dev_data, dev_tag_data).
                and_then
                  (train_head_model E (P3\<lparr>dep_vocab := Some (train_labels E pd)\<rparr>)
                     sent_data ph
                     (map_option (\<lambda>(s, h, d). (s, h)) dev_data) tag_data dev_tag_data)
                  (\<lambda>P4 u.
                     train_dep_model E P4 (sent_data, ph, pd) dev_data
                       tag_data dev_tag_data)) = (P', Inr ())"
    by (rule and_then_Inr)
  have P2: "P2 = PB"
    and tdB: "case tags of None \<Rightarrow> tag_data = None
              | Some ts \<Rightarrow> \<exists>vectors. vectors_as E PB tags vectors \<and> tag_data = Some vectors"
    using stepB unfolding PB_def P1 vectors_as_def
    by (auto simp: and_then_def transform_tags_train_result split: option.splits)
  from restB obtain P3 dev_pair where
    stepC: "encode_dev E P2 dev dev_tags = (P3, Inr dev_pair)"
    and restC: "(case dev_pair of (dev_data, dev_tag_data) \<Rightarrow>
                and_then
                  (train_head_model E (P3\<lparr>dep_vocab := Some (train_labels E pd)\<rparr>)
                     sent_data ph
                     (map_option (\<lambda>(s, h, d). (s, h)) dev_data) tag_data dev_tag_data)
                  (\<lambda>P4 u.
                     train_dep_model E P4 (sent_data, ph, pd) dev_data
                       tag_data dev_tag_data)) = (P', Inr ())"
    by (rule and_then_Inr)
  obtain dev_data dev_tag_data where dp: "dev_pair = (dev_data, dev_tag_data)"
    by (cases dev_pair) auto
  have P3: "P3 = PB" using stepC encode_dev_keep[of E P2 dev dev_tags] P2 by simp
  note devC = encode_dev_result[OF stepC[unfolded dp P2]]
  from restC[unfolded dp P3] obtain P4 u where
    stepD: "train_head_model E (PB\<lparr>dep_vocab := Some (train_labels E pd)\<rparr>) sent_data ph
              (map_option (\<lambda>(s, h, d). (s, h)) dev_data) tag_data dev_tag_data = (P4, Inr u)"
    and stepE: "train_dep_model E P4 (sent_data, ph, pd) dev_data tag_data dev_tag_data
              = (P', Inr ())"
    by (auto elim: and_then_Inr)
  from stepD obtain hnet hnet' where
    fh: "fit_head E hnet sent_data ph (map_option (\<lambda>(s, h, d). (s, h)) dev_data)
           (if use_tags (PB\<lparr>dep_vocab := Some (train_labels E pd)\<rparr>) then tag_data else None)
           (if use_tags (PB\<lparr>dep_vocab := Some (train_labels E pd)\<rparr>) then dev_tag_data else None)
         = Inr hnet'"
    and P4: "P4 = PB\<lparr>dep_vocab := Some (train_labels E pd), head_model := Some hnet'\<rparr>"
    by (rule train_head_model_Inr) simp
  from stepE obtain dnet dnet' where
    fd: "fit_dep E dnet (dep_vocab P4) (sent_data, ph, pd) dev_data
           (if use_tags P4 then tag_data else None)
           (if use_tags P4 then dev_tag_data else None) = Inr dnet'"
    and P': "P' = P4\<lparr>dep_model := Some dnet'\<rparr>"
    by (rule train_dep_model_Inr)
  have same: "use_char_model P' = use_char_model PB" "symbol_vocabulary P' = symbol_vocabulary PB"
    "tag_vocabulary P' = tag_vocabulary PB" "use_tags P' = use_tags PB"
    "dep_vocab P' = dep_vocab P4" "use_tags P4 = use_tags PB"
    "head_model P' = Some hnet'" "dep_model P' = Some dnet'"
    unfolding P' P4 by simp_all
  have sameA: "use_char_model PB = use_char_model PA" "symbol_vocabulary PB = symbol_vocabulary PA"
    unfolding PB_def by (simp_all split: option.splits)
  have c1: "coded_as E P' ps sent_data"
    using sdA coded_as_cong[of P' PA E ps sent_data] same(1,2) sameA by simp
  have c2: "case tags of None \<Rightarrow> tag_data = None
            | Some ts \<Rightarrow> \<exists>vectors. vectors_as E P' tags vectors \<and> tag_data = Some vectors"
    using tdB vectors_as_cong[of P' PB E tags] same(3) by (simp split: option.splits)
  have c3: "case dev of
         None \<Rightarrow> dev_data = None \<and> dev_tag_data = None
       | Some triple \<Rightarrow>
           (\<exists>dev_sent_data.
              coded_as E P' (fst (pad_data3 E triple)) dev_sent_data \<and>
              dev_data = Some (dev_sent_data, snd (pad_data3 E triple))) \<and>
           (if use_tags P'
            then (\<exists>vectors. vectors_as E P' dev_tags vectors \<and> dev_tag_data = Some vectors)
            else dev_tag_data = None)"
  proof -
    have e1: "coded_as E P' = coded_as E PB"
      using coded_as_cong[of P' PB E] same(1,2) by (simp add: fun_eq_iff)
    have e2: "vectors_as E P' = vectors_as E PB"
      using vectors_as_cong[of P' PB E] same(3) by (simp add: fun_eq_iff)
    show ?thesis unfolding e1 e2 same(4) by (rule devC)
  qed
  have c4: "fit_head E hnet sent_data ph (map_option (\<lambda>(s, h, d). (s, h)) dev_data)
        (if use_tags P' then tag_data else None)
        (if use_tags P' then dev_tag_data else None) = Inr hnet'"
    using fh same(4) by simp
  have c5: "fit_dep E dnet (dep_vocab P') (sent_data, ph, pd) dev_data
        (if use_tags P' then tag_data else None)
        (if use_tags P' then dev_tag_data else None) = Inr dnet'"
    using fd same(4,5,6) by simp
  show ?thesis
    unfolding pad fst_conv snd_conv
    using c1 c2 c3 c4 c5 same(7,8) by blast
qed

text \<open>
  Claim C6. After any call of \<open>train\<close>, whatever its outcome, each vocabulary of the parser
  is either the one it had before or the one trained on the training inputs: the symbol
  vocabulary on the processed padded training sentences (assigned exactly when the parser
  uses the character model), the tag vocabulary on the wrapped training tags (when tags are
  given), the label vocabulary on the padded training labels; when \<open>train\<close> returns, the tag
  and label vocabularies are exactly these. When \<open>train\<close> returns, the two networks have been
  fitted on training and development data encoded under these vocabularies, the ones the
  parser holds after the call: the development sentences are coded with the symbol
  vocabulary and the development tags turned into vectors with the tag vocabulary that were
  built from the training data. \<open>_transform_data\<close> and \<open>_transform_tags\<close> with \<open>to_train\<close> left
  \<open>False\<close> encode with the vocabulary the parser holds and leave the parser as it is, and so
  do the encoding of the development data, \<open>predict\<close>, \<open>predict_heads\<close> and \<open>predict_deps\<close>.
\<close>

theorem train_vocabularies:
  "train E P sents heads deps dev tags dev_tags = (P', r) \<Longrightarrow>
     symbol_vocabulary P' =
       (if use_char_model P then Some (trained_symbols E sents heads deps)
        else symbol_vocabulary P) \<and>
     (tag_vocabulary P' = tag_vocabulary P \<or>
        (\<exists>ts. tags = Some ts \<and> tag_vocabulary P' = Some (trained_features E ts))) \<and>
     (dep_vocab P' = dep_vocab P \<or> dep_vocab P' = Some (trained_labels E sents heads deps)) \<and>
     (r = Inr () \<longrightarrow>
        tag_vocabulary P' =
          (case tags of None \<Rightarrow> tag_vocabulary P | Some ts \<Rightarrow> Some (trained_features E ts)) \<and>
        dep_vocab P' = Some (trained_labels E sents heads deps) \<and>
        (\<exists>sent_data tag_data dev_data dev_tag_data hnet hnet' dnet dnet'.
           coded_as E P' (fst (pad_data3 E (sents, heads, deps))) sent_data \<and>
           (case tags of
              None \<Rightarrow> tag_data = None
            | Some ts \<Rightarrow> \<exists>vectors. vectors_as E P' tags vectors \<and> tag_data = Some vectors) \<and>
           (case dev of
              None \<Rightarrow> dev_data = None \<and> dev_tag_data = None
            | Some triple \<Rightarrow>
                (\<exists>dev_sent_data.
                   coded_as E P' (fst (pad_data3 E triple)) dev_sent_data \<and>
                   dev_data = Some (dev_sent_data, snd (pad_data3 E triple))) \<and>
                (if use_tags P'
                 then (\<exists>vectors. vectors_as E P' dev_tags vectors \<and>
                                 dev_tag_data = Some vectors)
                 else dev_tag_data = None)) \<and>
           fit_head E hnet sent_data (fst (snd (pad_data3 E (sents, heads, deps))))
             (map_option (\<lambda>(s, h, d). (s, h)) dev_data)
             (if use_tags P' then tag_data else None)
             (if use_tags P' then dev_tag_data else None) = Inr hnet' \<and>
           head_model P' = Some hnet' \<and>
           fit_dep E dnet (dep_vocab P')
             (sent_data, snd (pad_data3 E (sents, heads, deps))) dev_data
             (if use_tags P' then tag_data else None)
             (if use_tags P' then dev_tag_data else None) = Inr dnet' \<and>
           dep_model P' = Some dnet')) \<and>
     transform_data E Q dev_sents False = (Q, coded_with E (symbol_vocabulary Q) dev_sents) \<and>
     transform_tags E Q dev_tags False =
       (Q, case dev_tags of
             None \<Rightarrow> Inl TypeError
           | Some ts \<Rightarrow>
               (case tag_vocabulary Q of
                  None \<Rightarrow> if ts = [] then Inr [] else Inl AttributeError
                | Some vocab \<Rightarrow> Inr (vectors_with E vocab ts))) \<and>
     fst (encode_dev E Q dev dev_tags) = Q \<and>
     fst (predict I Q data) = Q \<and>
     fst (predict_heads I Q data) = Q \<and>
     fst (predict_deps I Q data pred_heads) = Q"
proof -
  assume run: "train E P sents heads deps dev tags dev_tags = (P', r)"
  note vocab = vocabularies_after_train[OF run]
  have success: "r = Inr () \<longrightarrow>
        (\<exists>sent_data tag_data dev_data dev_tag_data hnet hnet' dnet dnet'.
           coded_as E P' (fst (pad_data3 E (sents, heads, deps))) sent_data \<and>
           (case tags of
              None \<Rightarrow> tag_data = None
            | Some ts \<Rightarrow> \<exists>vectors. vectors_as E P' tags vectors \<and> tag_data = Some vectors) \<and>
           (case dev of
              None \<Rightarrow> dev_data = None \<and> dev_tag_data = None
            | Some triple \<Rightarrow>
                (\<exists>dev_sent_data.
                   coded_as E P' (fst (pad_data3 E triple)) dev_sent_data \<and>
                   dev_data = Some (dev_sent_data, snd (pad_data3 E triple))) \<and>
                (if use_tags P'
                 then (\<exists>vectors. vectors_as E P' dev_tags vectors \<and>
                                 dev_tag_data = Some vectors)
                 else dev_tag_data = None)) \<and>
           fit_head E hnet sent_data (fst (snd (pad_data3 E (sents, heads, deps))))
             (map_option (\<lambda>(s, h, d). (s, h)) dev_data)
             (if use_tags P' then tag_data else None)
             (if use_tags P' then dev_tag_data else None) = Inr hnet' \<and>
           head_model P' = Some hnet' \<and>
           fit_dep E dnet (dep_vocab P')
             (sent_data, snd (pad_data3 E (sents, heads, deps))) dev_data
             (if use_tags P' then tag_data else None)
             (if use_tags P' then dev_tag_data else None) = Inr dnet' \<and>
           dep_model P' = Some dnet')"
  proof
    assume "r = Inr ()"
    then show "\<exists>sent_data tag_data dev_data dev_tag_data hnet hnet' dnet dnet'.
           coded_as E P' (fst (pad_data3 E (sents, heads, deps))) sent_data \<and>
           (case tags of
              None \<Rightarrow> tag_data = None
            | Some ts \<Rightarrow> \<exists>vectors. vectors_as E P' tags vectors \<and> tag_data = Some vectors) \<and>
           (case dev of
              None \<Rightarrow> dev_data = None \<and> dev_tag_data = None
            | Some triple \<Rightarrow>
                (\<exists>dev_sent_data.
                   coded_as E P' (fst (pad_data3 E triple)) dev_sent_data \<and>
                   dev_data = Some (dev_sent_data, snd (pad_data3 E triple))) \<and>
                (if use_tags P'
                 then (\<exists>vectors. vectors_as E P' dev_tags vectors \<and>
                                 dev_tag_data = Some vectors)
                 else dev_tag_data = None)) \<and>
           fit_head E hnet sent_data (fst (snd (pad_data3 E (sents, heads, deps))))
             (map_option (\<lambda>(s, h, d). (s, h)) dev_data)
             (if use_tags P' then tag_data else None)
             (if use_tags P' then dev_tag_data else None) = Inr hnet' \<and>
           head_model P' = Some hnet' \<and>
           fit_dep E dnet (dep_vocab P')
             (sent_data, snd (pad_data3 E (sents, heads, deps))) dev_data
             (if use_tags P' then tag_data else None)
             (if use_tags P' then dev_tag_data else None) = Inr dnet' \<and>
           dep_model P' = Some dnet'"
      using train_success[of E P sents heads deps dev tags dev_tags P'] run by simp
  qed
  note k1 = transform_data_result[of E Q dev_sents]
  note k2 = transform_tags_result[of E Q dev_tags]
  note k3 = encode_dev_keep[of E Q dev dev_tags]
  note k4 = predict_keep[of I Q data]
  note k5 = predict_heads_keep[of I Q data]
  note k6 = predict_deps_keep[of I Q data pred_heads]
  show ?thesis
    using vocab(1) vocab(2) vocab(3) vocab(4) success k1 k2 k3 k4 k5 k6
    by (intro conjI impI) (assumption | blast)+
qed

lemma example_training_run:
  "train example_training untrained_parser [[''go'']] [[0]] [[''root'']]
        (Some ([[''up'']], [[0]], [[''obj'']])) (Some [[''VERB'']]) (Some [[''ADV'']]) =
   (\<lparr>use_tags = True, use_char_model = True,
     symbol_vocabulary = Some [''<s>'', ''go'', ''</s>''],
     tag_vocabulary = Some [''BEGIN'', ''VERB'', ''END''],
     dep_vocab = Some [''root'', ''PAD''], head_model = Some 2, dep_model = Some 5\<rparr>, Inr ())"
  by (simp add: train_def and_then_def transform_data_def transform_tags_def encode_dev_def
      train_head_model_def train_dep_model_def)

theorem train_vocabularies_witness:
  "train example_training untrained_parser [[''go'']] [[0]] [[''root'']]
        (Some ([[''up'']], [[0]], [[''obj'']])) (Some [[''VERB'']]) (Some [[''ADV'']]) =
   (\<lparr>use_tags = True, use_char_model = True,
     symbol_vocabulary = Some [''<s>'', ''go'', ''</s>''],
     tag_vocabulary = Some [''BEGIN'', ''VERB'', ''END''],
     dep_vocab = Some [''root'', ''PAD''], head_model = Some 2, dep_model = Some 5\<rparr>, Inr ()) \<and>
   trained_symbols example_training [[''go'']] [[0]] [[''root'']] = [''<s>'', ''go'', ''</s>''] \<and>
   trained_features example_training [[''VERB'']] = [''BEGIN'', ''VERB'', ''END''] \<and>
   trained_labels example_training [[''go'']] [[0]] [[''root'']] = [''root'', ''PAD''] \<and>
   coded_with example_training (Some [''<s>'', ''go'', ''</s>'']) [[''<s>'', ''up'', ''</s>'']] =
     Inr [[''<s>'', ''</s>'']] \<and>
   vectors_with example_training [''BEGIN'', ''VERB'', ''END''] [[''ADV'']] = [[0, 3, 2]]"
  using train_vocabularies [OF example_training_run] example_training_run
  by (simp add: trained_symbols_def trained_features_def trained_labels_def coded_with_def
      vectors_with_def)

end
